theory Spec2Isabelle
  imports Complex_Main "HOL-Library.Word"
begin

unbundle bit_operations_syntax

section \<open>Shared data model\<close>

text \<open>
  Errors are values. \<^verbatim>\<open>throw std::runtime_error(msg)\<close> becomes \<open>runtime_error msg\<close>.
\<close>

datatype error = runtime_error string

text \<open>
  The enumerations \<^verbatim>\<open>bodo_array_type::arr_type_enum\<close>, \<^verbatim>\<open>Bodo_CTypes::CTypeEnum\<close> and
  \<^verbatim>\<open>Bodo_FTypes\<close> are declared in headers outside the files modelled here; the constructors
  below are the members the modelled code names (\<^verbatim>\<open>_BOOL\<close> is written \<open>BOOL\<close>, the dtype
  \<^verbatim>\<open>STRING\<close> is \<open>STRING_dtype\<close>, and function tags that clash with HOL constants carry the
  suffix \<open>_f\<close>). Function tags reach the C++ as plain \<^verbatim>\<open>int\<close>s: \<open>other_ftype\<close> stands for
  every other value.
\<close>

datatype arr_type_enum = NUMPY | STRING | NULLABLE_INT_BOOL | LIST_STRING | STRUCT
  | CATEGORICAL | ARRAY_ITEM | INTERVAL | DICT | MAP | TIMESTAMPTZ

datatype CTypeEnum = INT8 | UINT8 | INT32 | UINT32 | INT64 | FLOAT32 | FLOAT64 | UINT64
  | INT16 | UINT16 | STRING_dtype | BOOL | DECIMAL | DATE | TIME | DATETIME | TIMEDELTA
  | INT128 | LIST_STRING_dtype | BINARY | OTHER_dtype

datatype FTypes = cumsum | cumprod | cummin | cummax
  | count_f | min_f | max_f | first_f | last_f | prod_f | sum_f | size_f
  | boolor_agg | mean | var | std | median | nunique | ngroup | row_number
  | min_row_number_filter | other_ftype int

text \<open>
  The fields of \<^verbatim>\<open>array_info\<close> that the modelled functions read: the array kind, the
  dtype, the row count (\<^verbatim>\<open>length\<close>) and \<^verbatim>\<open>num_categories\<close>. The records further down
  extend this header with the buffers a component works on.
\<close>

record array_header =
  arr_type :: arr_type_enum
  dtype :: CTypeEnum
  arr_length :: nat
  num_categories :: nat

section \<open>Storage manager: block ids\<close>

text \<open>
  \<^verbatim>\<open>bodo/libs/_storage_manager.h\<close>: the two private counters of \<^verbatim>\<open>StorageManager\<close>,
  both \<^verbatim>\<open>uint64_t\<close> and both initialised to 0.
\<close>

record StorageManager =
  block_id_counter :: "64 word"
  curr_spilled_bytes :: "64 word"

definition StorageManager_init :: StorageManager where
  "StorageManager_init = \<lparr>block_id_counter = 0, curr_spilled_bytes = 0\<rparr>"

text \<open>\<^verbatim>\<open>uint64_t GetNewBlockID() { return this->block_id_counter++; }\<close>:
  the old value is returned, the counter is incremented (unsigned, so it wraps).\<close>

definition GetNewBlockID :: "StorageManager \<Rightarrow> 64 word \<times> StorageManager" where
  "GetNewBlockID sm =
     (block_id_counter sm, sm\<lparr>block_id_counter := block_id_counter sm + 1\<rparr>)"

text \<open>The manager after \<open>n\<close> successive calls, and the id that call number \<open>n\<close>
  (counting from 0) of a fresh manager returns.\<close>

fun after_calls :: "nat \<Rightarrow> StorageManager \<Rightarrow> StorageManager" where
  "after_calls 0 sm = sm"
| "after_calls (Suc n) sm = after_calls n (snd (GetNewBlockID sm))"

definition nth_block_id :: "nat \<Rightarrow> 64 word" where
  "nth_block_id n = fst (GetNewBlockID (after_calls n StorageManager_init))"

section \<open>Streaming groupby\<close>

text \<open>
  \<^verbatim>\<open>bodo/libs/_stream_groupby.cpp\<close>. A table is seen row by row: a row is its key cells
  (nullable, \<open>None\<close> is null) and its data cells (\<^verbatim>\<open>INT64\<close> values). The build buffer of a
  table (\<^verbatim>\<open>TableBuildBuffer\<close>) holds the rows appended so far.
\<close>

type_synonym 'a row = "'a option list \<times> 64 word list"

record 'row TableBuildBuffer =
  data_table :: "'row list"

text \<open>
  The fields of \<^verbatim>\<open>GroupbyState\<close> the file uses. The two hash maps
  (\<^verbatim>\<open>unord_map_container<int64_t, int64_t, HashGroupbyTable, KeyEqualGroupbyTable>\<close>) are
  lists of entries, key and value. The column sets are sums, each over one input column:
  \<open>f_in_cols\<close> lists these columns.
\<close>

record 'a GroupbyState =
  n_keys :: nat
  parallel :: bool
  f_in_cols :: "nat list"
  local_table_buffer :: "'a row TableBuildBuffer"
  local_table_groupby_hashes :: "32 word list"
  local_next_group :: int
  local_build_table :: "(int \<times> int) list"
  shuffle_table_buffer :: "'a row TableBuildBuffer"
  shuffle_table_groupby_hashes :: "32 word list"
  shuffle_next_group :: int
  shuffle_build_table :: "(int \<times> int) list"
  in_table :: "'a row list"
  in_table_hashes :: "32 word list"
  build_iter :: nat

text \<open>
  Modelled from the spec: the constructor of \<^verbatim>\<open>GroupbyState\<close> is not among the modelled
  files; the spec has both build tables ``created empty at operator construction''.
\<close>

definition GroupbyState_init :: "nat \<Rightarrow> bool \<Rightarrow> nat list \<Rightarrow> 'a GroupbyState" where
  "GroupbyState_init keys par cols =
     \<lparr>n_keys = keys, parallel = par, f_in_cols = cols,
      local_table_buffer = \<lparr>data_table = []\<rparr>, local_table_groupby_hashes = [],
      local_next_group = 0, local_build_table = [],
      shuffle_table_buffer = \<lparr>data_table = []\<rparr>, shuffle_table_groupby_hashes = [],
      shuffle_next_group = 0, shuffle_build_table = [],
      in_table = [], in_table_hashes = [], build_iter = 0\<rparr>"

text \<open>
  What the file takes from outside: the process group (\<^verbatim>\<open>MPI_Comm_size\<close>,
  \<^verbatim>\<open>MPI_Comm_rank\<close>), \<^verbatim>\<open>hash_keys_table\<close> with its two seeds (a hash of the key cells of
  a row), \<^verbatim>\<open>hash_to_rank\<close>, \<^verbatim>\<open>shuffle_this_iter\<close>, the rows this process receives from
  \<^verbatim>\<open>shuffle_table_kernel\<close>, and the contents of a data slot whose size has been
  incremented but which has not been written.
\<close>

record 'a groupby_env =
  n_pes :: nat
  myrank :: nat
  hash_keys_groupby :: "'a option list \<Rightarrow> 32 word"
  hash_keys_partition :: "'a option list \<Rightarrow> 32 word"
  hash_to_rank :: "32 word \<Rightarrow> nat \<Rightarrow> nat"
  shuffle_this_iter :: "bool \<Rightarrow> bool \<Rightarrow> 'a row list \<Rightarrow> nat \<Rightarrow> bool"
  shuffle_table_kernel :: "'a row list \<Rightarrow> 'a row list"
  uninitialized :: "nat \<Rightarrow> 64 word"

definition hash_keys_table ::
  "('a option list \<Rightarrow> 32 word) \<Rightarrow> 'a row list \<Rightarrow> nat \<Rightarrow> 32 word list" where
  "hash_keys_table hash_keys tbl keys = map (\<lambda>r. hash_keys (take keys (fst r))) tbl"

text \<open>
  Modelled from the spec: \<^verbatim>\<open>TestEqualJoin\<close> is not among the modelled files; the spec has
  equality ``by full key-column comparison (nulls compare equal)''.
\<close>

definition TestEqualJoin ::
  "'a row list \<Rightarrow> 'a row list \<Rightarrow> nat \<Rightarrow> nat \<Rightarrow> nat \<Rightarrow> bool \<Rightarrow> bool" where
  "TestEqualJoin table_A table_B jRowA jRowB keys is_na_equal =
     list_all (\<lambda>c. case (fst (table_A ! jRowA) ! c, fst (table_B ! jRowB) ! c) of
                      (None, None) \<Rightarrow> is_na_equal
                    | (Some x, Some y) \<Rightarrow> x = y
                    | _ \<Rightarrow> False)
       [0..<keys]"

text \<open>
  \<^verbatim>\<open>HashGroupbyTable<is_local>::operator()\<close> and \<^verbatim>\<open>KeyEqualGroupbyTable<is_local>::operator()\<close>.
  A row id that is not negative is a row of the build table, a negative id \<open>- i - 1\<close> is
  row \<open>i\<close> of the current input table.
\<close>

definition HashGroupbyTable :: "bool \<Rightarrow> 'a GroupbyState \<Rightarrow> int \<Rightarrow> 32 word" where
  "HashGroupbyTable is_local groupby_state iRow =
     (let build_hashes = (if is_local then local_table_groupby_hashes groupby_state
                          else shuffle_table_groupby_hashes groupby_state)
      in if iRow \<ge> 0 then build_hashes ! nat iRow
         else in_table_hashes groupby_state ! nat (- iRow - 1))"

definition KeyEqualGroupbyTable :: "bool \<Rightarrow> 'a GroupbyState \<Rightarrow> int \<Rightarrow> int \<Rightarrow> bool" where
  "KeyEqualGroupbyTable is_local groupby_state iRowA iRowB =
     (let build_table = (if is_local then data_table (local_table_buffer groupby_state)
                         else data_table (shuffle_table_buffer groupby_state));
          in_tbl = in_table groupby_state;
          is_build_A = (iRowA \<ge> 0);
          is_build_B = (iRowB \<ge> 0);
          jRowA = (if is_build_A then nat iRowA else nat (- iRowA - 1));
          jRowB = (if is_build_B then nat iRowB else nat (- iRowB - 1));
          table_A = (if is_build_A then build_table else in_tbl);
          table_B = (if is_build_B then build_table else in_tbl)
      in TestEqualJoin table_A table_B jRowA jRowB (n_keys groupby_state) True)"

text \<open>
  The hash map with these two functors: \<open>map_find\<close> is the entry a lookup of \<open>k\<close> reaches
  (same hash, equal key), \<^verbatim>\<open>contains\<close> tests for it, and \<^verbatim>\<open>m[k] = v\<close> overwrites the value
  of that entry or inserts a new entry.
\<close>

definition map_find ::
  "bool \<Rightarrow> 'a GroupbyState \<Rightarrow> (int \<times> int) list \<Rightarrow> int \<Rightarrow> (int \<times> int) option" where
  "map_find is_local groupby_state entries k =
     find (\<lambda>(k', v). HashGroupbyTable is_local groupby_state k'
                        = HashGroupbyTable is_local groupby_state k
                      \<and> KeyEqualGroupbyTable is_local groupby_state k' k) entries"

definition map_assign ::
  "bool \<Rightarrow> 'a GroupbyState \<Rightarrow> (int \<times> int) list \<Rightarrow> int \<Rightarrow> int \<Rightarrow> (int \<times> int) list" where
  "map_assign is_local groupby_state entries k v =
     (case map_find is_local groupby_state entries k of
        None \<Rightarrow> entries @ [(k, v)]
      | Some (k', _) \<Rightarrow> map (\<lambda>(k'', v''). if k'' = k' then (k'', v) else (k'', v'')) entries)"

text \<open>
  \<^verbatim>\<open>update_groups<is_local>\<close>. \<^verbatim>\<open>AppendRowKeys\<close> appends the key cells of the input row to
  the build buffer and \<^verbatim>\<open>IncrementSizeDataColumns\<close> adds its data slots, one per column
  set, not yet written. The function returns the state and \<^verbatim>\<open>grp_info.row_to_group\<close>.
\<close>

definition update_groups ::
  "'a groupby_env \<Rightarrow> bool \<Rightarrow> 'a GroupbyState \<Rightarrow> int list \<Rightarrow> 'a row list \<Rightarrow> 32 word list
     \<Rightarrow> nat \<Rightarrow> 'a GroupbyState \<times> int list" where
  "update_groups env is_local groupby_state row_to_group in_tbl batch_hashes_groupby i_row =
     (let build_table = (if is_local then local_build_table groupby_state
                         else shuffle_build_table groupby_state)
      in case map_find is_local groupby_state build_table (- int i_row - 1) of
           Some (k, grp) \<Rightarrow> (groupby_state, row_to_group[i_row := grp])
         | None \<Rightarrow>
             let new_row = (take (n_keys groupby_state) (fst (in_tbl ! i_row)),
                            map (uninitialized env) [0..<length (f_in_cols groupby_state)]);
                 new_hash = batch_hashes_groupby ! i_row;
                 grp = (if is_local then local_next_group groupby_state
                          else shuffle_next_group groupby_state);
                 st1 =
                   (if is_local
                    then groupby_state\<lparr>
                      local_table_buffer :=
                        \<lparr>data_table = data_table (local_table_buffer groupby_state) @ [new_row]\<rparr>,
                      local_table_groupby_hashes :=
                        local_table_groupby_hashes groupby_state @ [new_hash],
                      local_next_group := grp + 1\<rparr>
                    else groupby_state\<lparr>
                      shuffle_table_buffer :=
                        \<lparr>data_table = data_table (shuffle_table_buffer groupby_state) @ [new_row]\<rparr>,
                      shuffle_table_groupby_hashes :=
                        shuffle_table_groupby_hashes groupby_state @ [new_hash],
                      shuffle_next_group := grp + 1\<rparr>);
                 st2 =
                   (if is_local
                    then st1\<lparr>local_build_table := map_assign is_local st1 build_table grp grp\<rparr>
                    else st1\<lparr>shuffle_build_table :=
                                 map_assign is_local st1 build_table grp grp\<rparr>)
             in (st2, row_to_group[i_row := grp]))"

text \<open>
  Modelled from the spec: the grouping of a batch and the column sets (\<^verbatim>\<open>get_group_info\<close>,
  \<^verbatim>\<open>alloc_init_keys\<close>, \<^verbatim>\<open>BasicColSet::update\<close> and \<^verbatim>\<open>combine\<close>) are not among the modelled
  files. By the spec, update ``transforms raw input into one intermediate value per new
  group'' and combine ``folds intermediate values into the running aggregate'' (``sum:
  add''), a new group's running value being initialised to the identity. Groups of a batch
  are numbered by first occurrence. \<open>get_update_table\<close> and \<open>combine_input_table\<close> follow
  the two functions of these names with this update and combine.
\<close>

definition distinct_keys :: "nat \<Rightarrow> 'a row list \<Rightarrow> 'a option list list" where
  "distinct_keys keys tbl = rev (remdups (rev (map (\<lambda>r. take keys (fst r)) tbl)))"

definition get_update_table :: "'a GroupbyState \<Rightarrow> 'a row list \<Rightarrow> 'a row list" where
  "get_update_table groupby_state in_tbl =
     map (\<lambda>k. (k, map (\<lambda>c. sum_list
                             (map (\<lambda>r. snd r ! (c - n_keys groupby_state))
                                (filter (\<lambda>r. take (n_keys groupby_state) (fst r) = k) in_tbl)))
                    (f_in_cols groupby_state)))
       (distinct_keys (n_keys groupby_state) in_tbl)"

definition combine_column ::
  "nat \<Rightarrow> int \<Rightarrow> 'a row list \<Rightarrow> int list \<Rightarrow> 'a row list \<Rightarrow> 'a row list" where
  "combine_column i init_start_row in_tbl row_to_group build_table =
     fold (\<lambda>r rows.
             let grp = row_to_group ! r
             in if grp < 0 then rows
                else rows[nat grp :=
                       (fst (rows ! nat grp),
                        (snd (rows ! nat grp))
                          [i := snd (rows ! nat grp) ! i + snd (in_tbl ! r) ! i])])
       [0..<length in_tbl]
       (map (\<lambda>(g, (k, d)). if int g \<ge> init_start_row then (k, d[i := 0]) else (k, d))
          (enumerate 0 build_table))"

definition combine_input_table ::
  "'a GroupbyState \<Rightarrow> 'a row list \<Rightarrow> int \<Rightarrow> 'a row list \<Rightarrow> int list \<Rightarrow> 'a row list" where
  "combine_input_table groupby_state build_table init_start_row in_tbl row_to_group =
     fold (\<lambda>i rows. combine_column i init_start_row in_tbl row_to_group rows)
       [0..<length (f_in_cols groupby_state)] build_table"

text \<open>
  \<^verbatim>\<open>groupby_build_consume_batch\<close>. The reservations change capacities only. The loop over
  the rows of the update table sends each row to the local or to the shuffle table; the
  two combines follow; when \<^verbatim>\<open>shuffle_this_iter\<close> holds, the shuffle table is exchanged and
  reset, and the received rows are inserted into the local table.
\<close>

definition consume_rows ::
  "'a groupby_env \<Rightarrow> 'a row list \<Rightarrow> 32 word list \<Rightarrow> 32 word list
     \<Rightarrow> 'a GroupbyState \<times> int list \<times> int list \<Rightarrow> 'a GroupbyState \<times> int list \<times> int list" where
  "consume_rows env in_tbl batch_hashes_groupby batch_hashes_partition =
     fold (\<lambda>i_row (groupby_state, local_rows, shuffle_rows).
             let process_on_rank =
                   (\<not> parallel groupby_state
                    \<or> hash_to_rank env (batch_hashes_partition ! i_row) (n_pes env) = myrank env)
             in if process_on_rank
                then (case update_groups env True groupby_state local_rows in_tbl
                             batch_hashes_groupby i_row of
                        (st, rows) \<Rightarrow> (st, rows, shuffle_rows))
                else (case update_groups env False groupby_state shuffle_rows in_tbl
                             batch_hashes_groupby i_row of
                        (st, rows) \<Rightarrow> (st, local_rows, rows)))
       [0..<length in_tbl]"

definition groupby_build_consume_batch ::
  "'a groupby_env \<Rightarrow> 'a GroupbyState \<Rightarrow> 'a row list \<Rightarrow> bool \<Rightarrow> 'a GroupbyState" where
  "groupby_build_consume_batch env groupby_state0 in_table0 is_last =
     (let in_tbl = get_update_table groupby_state0 in_table0;
          keys = n_keys groupby_state0;
          batch_hashes_groupby = hash_keys_table (hash_keys_groupby env) in_tbl keys;
          batch_hashes_partition = hash_keys_table (hash_keys_partition env) in_tbl keys;
          st1 = groupby_state0\<lparr>in_table := in_tbl, in_table_hashes := batch_hashes_groupby\<rparr>;
          local_init_start_row = local_next_group st1;
          shuffle_init_start_row = shuffle_next_group st1
      in case consume_rows env in_tbl batch_hashes_groupby batch_hashes_partition
                (st1, replicate (length in_tbl) (- 1), replicate (length in_tbl) (- 1)) of
           (st2, local_row_to_group, shuffle_row_to_group) \<Rightarrow>
             let st3 = st2\<lparr>local_table_buffer :=
                   \<lparr>data_table = combine_input_table st2 (data_table (local_table_buffer st2))
                       local_init_start_row in_tbl local_row_to_group\<rparr>\<rparr>;
                 st4 = st3\<lparr>shuffle_table_buffer :=
                   \<lparr>data_table = combine_input_table st3 (data_table (shuffle_table_buffer st3))
                       shuffle_init_start_row in_tbl shuffle_row_to_group\<rparr>\<rparr>;
                 st9 =
                   (if shuffle_this_iter env (parallel st4) is_last
                         (data_table (shuffle_table_buffer st4)) (build_iter st4)
                    then
                      let shuffle_table = data_table (shuffle_table_buffer st4);
                          new_data = shuffle_table_kernel env shuffle_table;
                          st5 = st4\<lparr>shuffle_table_buffer := \<lparr>data_table = []\<rparr>\<rparr>;
                          new_hashes = hash_keys_table (hash_keys_groupby env) new_data keys;
                          st6 = st5\<lparr>in_table := new_data, in_table_hashes := new_hashes\<rparr>;
                          init_start_row = local_next_group st6
                      in case fold (\<lambda>i_row (st, rows).
                                      update_groups env True st rows new_data new_hashes i_row)
                                [0..<length new_data]
                                (st6, replicate (length new_data) 0) of
                           (st7, row_to_group) \<Rightarrow>
                             st7\<lparr>local_table_buffer :=
                               \<lparr>data_table =
                                  combine_input_table st7 (data_table (local_table_buffer st7))
                                    init_start_row new_data row_to_group\<rparr>\<rparr>
                    else st4)
             in st9\<lparr>build_iter := build_iter st9 + 1\<rparr>)"

text \<open>\<^verbatim>\<open>groupby_produce_output_batch\<close>.\<close>

definition groupby_produce_output_batch ::
  "'a GroupbyState \<Rightarrow> 'a row list \<times> bool" where
  "groupby_produce_output_batch groupby_state =
     (let is_last = True
      in (data_table (local_table_buffer groupby_state), is_last))"

text \<open>
  A process that runs alone: one rank, and no shuffle unless the state is parallel.
\<close>

definition single_process_env ::
  "('a option list \<Rightarrow> 32 word) \<Rightarrow> ('a option list \<Rightarrow> 32 word) \<Rightarrow> (nat \<Rightarrow> 64 word)
     \<Rightarrow> 'a groupby_env" where
  "single_process_env hash_groupby hash_partition garbage =
     \<lparr>n_pes = 1, myrank = 0, hash_keys_groupby = hash_groupby,
      hash_keys_partition = hash_partition, hash_to_rank = (\<lambda>h n. 0),
      shuffle_this_iter = (\<lambda>par is_last tbl iter. par \<and> is_last),
      shuffle_table_kernel = (\<lambda>tbl. tbl), uninitialized = garbage\<rparr>"

section \<open>Append-only column build buffer\<close>

text \<open>
  \<^verbatim>\<open>bodo/libs/_array_build_buffer.h\<close>. Buffers are byte arrays; a list holds the whole
  reserved memory of a buffer. \<^verbatim>\<open>GetBit\<close>, \<^verbatim>\<open>SetBitTo\<close> and \<^verbatim>\<open>BytesForBits\<close> are the
  Arrow bit utilities the file calls:
  \<^verbatim>\<open>(bits[i >> 3] >> (i & 7)) & 1\<close>,
  \<^verbatim>\<open>bits[i / 8] ^= (-uint8_t(bit_is_set) ^ bits[i / 8]) & kBitmask[i % 8]\<close> and
  \<^verbatim>\<open>(bits + 7) >> 3\<close>.
\<close>

type_synonym byte = "8 word"

definition GetBit :: "byte list \<Rightarrow> nat \<Rightarrow> bool" where
  "GetBit bits i = (drop_bit (i mod 8) (bits ! (i div 8)) AND 1 \<noteq> 0)"

definition SetBitTo_byte :: "byte \<Rightarrow> nat \<Rightarrow> bool \<Rightarrow> byte" where
  "SetBitTo_byte b k bit_is_set =
     b XOR ((- (if bit_is_set then 1 else 0) XOR b) AND push_bit k 1)"

definition SetBitTo :: "byte list \<Rightarrow> nat \<Rightarrow> bool \<Rightarrow> byte list" where
  "SetBitTo bits i bit_is_set =
     bits[i div 8 := SetBitTo_byte (bits ! (i div 8)) (i mod 8) bit_is_set]"

definition BytesForBits :: "nat \<Rightarrow> nat" where
  "BytesForBits bits = drop_bit 3 (bits + 7)"

text \<open>
  \<^verbatim>\<open>memcpy(dest + off, src, n)\<close>, and \<^verbatim>\<open>_copy_bitmap(dest + off, src, length)\<close> of the source,
  which copies \<^verbatim>\<open>(length + 7) >> 3\<close> whole bytes. Both are meaningful when the ranges lie
  inside the buffers, which the callers' \<^verbatim>\<open>SetSize\<close> checks and the well-formedness of the
  input array give.
\<close>

definition memcpy :: "byte list \<Rightarrow> nat \<Rightarrow> byte list \<Rightarrow> nat \<Rightarrow> byte list" where
  "memcpy dest off src n = take off dest @ take n src @ drop (off + n) dest"

definition copy_bitmap :: "byte list \<Rightarrow> nat \<Rightarrow> byte list \<Rightarrow> nat \<Rightarrow> byte list" where
  "copy_bitmap dest off src len =
     (let bytes_to_copy = drop_bit 3 (len + 7) in memcpy dest off src bytes_to_copy)"

text \<open>
  The byte-level view of a fixed-width nullable array: \<^verbatim>\<open>data1\<close> (\<^verbatim>\<open>buffers[0]\<close>) and the
  null bitmap (\<^verbatim>\<open>buffers[1]\<close>). \<^verbatim>\<open>ArrayBuildBuffer::size\<close> is an alias of
  \<^verbatim>\<open>data_array->length\<close>, so the buffer is identified with its data array.
\<close>

record array_info = array_header +
  data1 :: "byte list"
  null_bitmask :: "byte list"

text \<open>
  \<^verbatim>\<open>buffers[k]->SetSize(n)\<close> succeeds when \<open>n\<close> bytes are reserved; otherwise
  \<^verbatim>\<open>CHECK_ARROW_BASE\<close> throws a \<^verbatim>\<open>std::runtime_error\<close> whose message is
  \<^verbatim>\<open>std::string(msg) + " " + __status.ToString()\<close>. The text of the failed Arrow status is
  not part of these sources: the append operations take it as the parameter
  \<open>status_ToString\<close>, a function of the buffer and of the size asked for.
\<close>

definition SetSize_ok :: "byte list \<Rightarrow> nat \<Rightarrow> bool" where
  "SetSize_ok buffer new_size = (new_size \<le> length buffer)"

definition SetSize_failed :: "string \<Rightarrow> error" where
  "SetSize_failed status_text =
     runtime_error (''ArrayBuildBuffer::UnsafeAppendBatch: SetSize failed!'' @ '' ''
                    @ status_text)"

text \<open>
  The slow path of the bitmap copy:
  \<^verbatim>\<open>for (i = 0; i < in_arr->length; i++) SetBitTo(out_bitmask, length++, GetBit(in_bitmask, i))\<close>.
\<close>

definition append_null_bits :: "byte list \<Rightarrow> nat \<Rightarrow> byte list \<times> nat \<Rightarrow> byte list \<times> nat" where
  "append_null_bits in_bitmask n =
     fold (\<lambda>i (out_bitmask, len). (SetBitTo out_bitmask len (GetBit in_bitmask i), len + 1)) [0..<n]"

text \<open>
  \<^verbatim>\<open>UnsafeAppendBatch(in_arr)\<close> for \<^verbatim>\<open>NULLABLE_INT_BOOL\<close> with a dtype other than \<^verbatim>\<open>_BOOL\<close>.
  The first argument of \<open>UnsafeAppendBatch_NULLABLE_path\<close> selects the branch of
  \<^verbatim>\<open>if ((size & 7) == 0)\<close>; \<open>UnsafeAppendBatch_NULLABLE\<close> is the function itself, which
  selects it by the test. \<^verbatim>\<open>numpy_item_size\<close> is a table declared elsewhere and is a
  parameter.
\<close>

definition UnsafeAppendBatch_NULLABLE_path ::
  "(byte list \<Rightarrow> nat \<Rightarrow> string) \<Rightarrow> bool \<Rightarrow> (CTypeEnum \<Rightarrow> nat) \<Rightarrow> array_info \<Rightarrow> array_info \<Rightarrow> error + array_info" where
  "UnsafeAppendBatch_NULLABLE_path status_ToString byte_aligned numpy_item_size data_array in_arr =
     (let sz = arr_length data_array;
          size_type = numpy_item_size (dtype in_arr)
      in if \<not> SetSize_ok (data1 data_array) ((sz + arr_length in_arr) * size_type)
         then Inl (SetSize_failed (status_ToString (data1 data_array)
                     ((sz + arr_length in_arr) * size_type)))
         else if \<not> SetSize_ok (null_bitmask data_array) (BytesForBits (sz + arr_length in_arr))
         then Inl (SetSize_failed (status_ToString (null_bitmask data_array)
                     (BytesForBits (sz + arr_length in_arr))))
         else
           let copied = data_array\<lparr>data1 :=
                  memcpy (data1 data_array) (size_type * sz) (data1 in_arr)
                    (size_type * arr_length in_arr)\<rparr>
           in if byte_aligned
              then Inr (copied\<lparr>null_bitmask :=
                          copy_bitmap (null_bitmask copied) (drop_bit 3 sz)
                            (null_bitmask in_arr) (arr_length in_arr),
                        arr_length := sz + arr_length in_arr\<rparr>)
              else
                (case append_null_bits (null_bitmask in_arr) (arr_length in_arr)
                        (null_bitmask copied, sz) of
                   (out_bitmask, len) \<Rightarrow>
                     Inr (copied\<lparr>null_bitmask := out_bitmask, arr_length := len\<rparr>)))"

definition UnsafeAppendBatch_NULLABLE ::
  "(byte list \<Rightarrow> nat \<Rightarrow> string) \<Rightarrow> (CTypeEnum \<Rightarrow> nat) \<Rightarrow> array_info \<Rightarrow> array_info \<Rightarrow> error + array_info" where
  "UnsafeAppendBatch_NULLABLE status_ToString numpy_item_size data_array in_arr =
     UnsafeAppendBatch_NULLABLE_path status_ToString (arr_length data_array AND 7 = 0)
       numpy_item_size data_array in_arr"

text \<open>
  \<^verbatim>\<open>UnsafeAppendBatch(in_arr, append_rows, append_rows_sum)\<close> for the same array kind: two
  loops over the input rows, copying the selected values (\<^verbatim>\<open>sizeof(T)\<close> bytes each) and then
  the selected null bits.
\<close>

definition UnsafeAppendBatch_NULLABLE_rows ::
  "(byte list \<Rightarrow> nat \<Rightarrow> string) \<Rightarrow> nat \<Rightarrow> array_info \<Rightarrow> array_info \<Rightarrow> bool list \<Rightarrow> nat \<Rightarrow> error + array_info" where
  "UnsafeAppendBatch_NULLABLE_rows status_ToString sizeof_T data_array in_arr append_rows append_rows_sum =
     (let sz = arr_length data_array
      in if \<not> SetSize_ok (data1 data_array) (sizeof_T * (sz + append_rows_sum))
         then Inl (SetSize_failed (status_ToString (data1 data_array)
                     (sizeof_T * (sz + append_rows_sum))))
         else if \<not> SetSize_ok (null_bitmask data_array) (BytesForBits (sz + append_rows_sum))
         then Inl (SetSize_failed (status_ToString (null_bitmask data_array)
                     (BytesForBits (sz + append_rows_sum))))
         else
           (case fold (\<lambda>row_ind (out_ptr, data_size).
                    if append_rows ! row_ind
                    then (memcpy out_ptr (sizeof_T * data_size)
                            (drop (sizeof_T * row_ind) (data1 in_arr)) sizeof_T,
                          data_size + 1)
                    else (out_ptr, data_size))
                  [0..<arr_length in_arr] (data1 data_array, sz) of
              (out_ptr, data_size) \<Rightarrow>
           (case fold (\<lambda>row_ind (out_bitmask, len).
                    if append_rows ! row_ind
                    then (SetBitTo out_bitmask len (GetBit (null_bitmask in_arr) row_ind),
                          len + 1)
                    else (out_bitmask, len))
                  [0..<arr_length in_arr] (null_bitmask data_array, sz) of
              (out_bitmask, len) \<Rightarrow>
                Inr (data_array\<lparr>data1 := out_ptr, null_bitmask := out_bitmask,
                                 arr_length := len\<rparr>))))"

text \<open>
  The \<^verbatim>\<open>NULLABLE_INT_BOOL\<close> case of \<^verbatim>\<open>UnsafeAppendRow(in_arr, row_ind)\<close>, with the final
  \<^verbatim>\<open>++this->data_array->length\<close>.
\<close>

definition AppendRow_SetSize_failed :: "string \<Rightarrow> error" where
  "AppendRow_SetSize_failed status_text =
     runtime_error (''ArrayBuildBuffer::UnsafeAppendRow: SetSize failed!'' @ '' ''
                    @ status_text)"

definition UnsafeAppendRow_NULLABLE ::
  "(byte list \<Rightarrow> nat \<Rightarrow> string) \<Rightarrow> (CTypeEnum \<Rightarrow> nat) \<Rightarrow> array_info \<Rightarrow> array_info \<Rightarrow> nat \<Rightarrow> error + array_info" where
  "UnsafeAppendRow_NULLABLE status_ToString numpy_item_size data_array in_arr row_ind =
     (let sz = arr_length data_array
      in if dtype in_arr = BOOL
         then
           if \<not> SetSize_ok (data1 data_array) (BytesForBits (sz + 1))
           then Inl (AppendRow_SetSize_failed (status_ToString (data1 data_array)
                       (BytesForBits (sz + 1))))
           else if \<not> SetSize_ok (null_bitmask data_array) (BytesForBits (sz + 1))
           then Inl (AppendRow_SetSize_failed (status_ToString (null_bitmask data_array)
                       (BytesForBits (sz + 1))))
           else
             let bit = GetBit (null_bitmask in_arr) row_ind
             in Inr (data_array\<lparr>
                  data1 := SetBitTo (data1 data_array) sz (GetBit (data1 in_arr) row_ind),
                  null_bitmask := SetBitTo (null_bitmask data_array) sz bit,
                  arr_length := sz + 1\<rparr>)
         else
           let size_type = numpy_item_size (dtype in_arr)
           in if \<not> SetSize_ok (data1 data_array) ((sz + 1) * size_type)
              then Inl (AppendRow_SetSize_failed (status_ToString (data1 data_array)
                          ((sz + 1) * size_type)))
              else if \<not> SetSize_ok (null_bitmask data_array) (BytesForBits (sz + 1))
              then Inl (AppendRow_SetSize_failed (status_ToString (null_bitmask data_array)
                          (BytesForBits (sz + 1))))
              else
                let bit = GetBit (null_bitmask in_arr) row_ind
                in Inr (data_array\<lparr>
                     data1 := memcpy (data1 data_array) (size_type * sz)
                                (drop (size_type * row_ind) (data1 in_arr)) size_type,
                     null_bitmask := SetBitTo (null_bitmask data_array) sz bit,
                     arr_length := sz + 1\<rparr>))"

text \<open>
  A dictionary-encoded array: \<^verbatim>\<open>child_arrays[0]\<close> is the dictionary, \<^verbatim>\<open>child_arrays[1]\<close> the
  \<^verbatim>\<open>INT32\<close> index array. In the buffer, \<^verbatim>\<open>dict_indices\<close> is the build buffer of
  \<^verbatim>\<open>data_array->child_arrays[1]\<close>. \<^verbatim>\<open>is_matching_dictionary\<close> is declared elsewhere and is
  a parameter of the three append operations. Each returns the exception thrown, if any,
  and the buffer as the call leaves it.
\<close>

record 'd dict_array_info =
  dict_arr_length :: nat
  dictionary :: 'd
  indices :: array_info

definition UnsafeAppendBatch_DICT_rows ::
  "(byte list \<Rightarrow> nat \<Rightarrow> string) \<Rightarrow> ('d \<Rightarrow> 'd \<Rightarrow> bool) \<Rightarrow> 'd dict_array_info \<Rightarrow> 'd dict_array_info \<Rightarrow> bool list \<Rightarrow> nat
     \<Rightarrow> error option \<times> 'd dict_array_info" where
  "UnsafeAppendBatch_DICT_rows status_ToString is_matching_dictionary data_array in_arr append_rows
       append_rows_sum =
     (if \<not> is_matching_dictionary (dictionary data_array) (dictionary in_arr)
      then (Some (runtime_error ''dictionary not unified in UnsafeAppendBatch''), data_array)
      else
        (case UnsafeAppendBatch_NULLABLE_rows status_ToString 4 (indices data_array) (indices in_arr)
                append_rows append_rows_sum of
           Inl e \<Rightarrow> (Some e, data_array)
         | Inr dict_indices \<Rightarrow>
             (None, data_array\<lparr>indices := dict_indices,
                      dict_arr_length := dict_arr_length data_array + append_rows_sum\<rparr>)))"

definition UnsafeAppendBatch_DICT ::
  "(byte list \<Rightarrow> nat \<Rightarrow> string) \<Rightarrow> ('d \<Rightarrow> 'd \<Rightarrow> bool) \<Rightarrow> (CTypeEnum \<Rightarrow> nat) \<Rightarrow> 'd dict_array_info \<Rightarrow> 'd dict_array_info
     \<Rightarrow> error option \<times> 'd dict_array_info" where
  "UnsafeAppendBatch_DICT status_ToString is_matching_dictionary numpy_item_size data_array in_arr =
     (if \<not> is_matching_dictionary (dictionary data_array) (dictionary in_arr)
      then (Some (runtime_error ''dictionary not unified in UnsafeAppendBatch''), data_array)
      else
        (case UnsafeAppendBatch_NULLABLE status_ToString numpy_item_size (indices data_array) (indices in_arr) of
           Inl e \<Rightarrow> (Some e, data_array)
         | Inr dict_indices \<Rightarrow>
             (None, data_array\<lparr>indices := dict_indices,
                      dict_arr_length := dict_arr_length data_array + dict_arr_length in_arr\<rparr>)))"

definition UnsafeAppendRow_DICT ::
  "(byte list \<Rightarrow> nat \<Rightarrow> string) \<Rightarrow> ('d \<Rightarrow> 'd \<Rightarrow> bool) \<Rightarrow> (CTypeEnum \<Rightarrow> nat) \<Rightarrow> 'd dict_array_info \<Rightarrow> 'd dict_array_info
     \<Rightarrow> nat \<Rightarrow> error option \<times> 'd dict_array_info" where
  "UnsafeAppendRow_DICT status_ToString is_matching_dictionary numpy_item_size data_array in_arr row_ind =
     (if \<not> is_matching_dictionary (dictionary data_array) (dictionary in_arr)
      then (Some (runtime_error ''dictionary not unified in AppendRow''), data_array)
      else
        (case UnsafeAppendRow_NULLABLE status_ToString numpy_item_size (indices data_array) (indices in_arr)
                row_ind of
           Inl e \<Rightarrow> (Some e, data_array)
         | Inr dict_indices \<Rightarrow>
             (None, data_array\<lparr>indices := dict_indices,
                      dict_arr_length := dict_arr_length data_array + 1\<rparr>)))"

text \<open>
  Modelled from the spec: \<^verbatim>\<open>is_matching_dictionary\<close> is not among the modelled files; the
  spec calls a dictionary unified when it is ``an exact shared reference to the canonical
  dictionary''. A dictionary is a shared object at an address, and two dictionaries match
  when they are the same object, whatever their contents.
\<close>

record shared_dictionary =
  address :: nat
  strings :: "string list"

definition is_matching_dictionary :: "shared_dictionary \<Rightarrow> shared_dictionary \<Rightarrow> bool" where
  "is_matching_dictionary arr1 arr2 = (address arr1 = address arr2)"

definition example_indices :: array_info where
  "example_indices = \<lparr>arr_type = NULLABLE_INT_BOOL, dtype = INT32, arr_length = 1,
     num_categories = 0, data1 = [1, 0, 0, 0, 0, 0, 0, 0], null_bitmask = [0x01]\<rparr>"

definition example_dict_buffer :: "shared_dictionary dict_array_info" where
  "example_dict_buffer = \<lparr>dict_arr_length = 1,
     dictionary = \<lparr>address = 4096, strings = [''a'', ''b'']\<rparr>,
     indices = example_indices\<rparr>"

definition example_dict_batch :: "shared_dictionary dict_array_info" where
  "example_dict_batch = \<lparr>dict_arr_length = 1,
     dictionary = \<lparr>address = 8192, strings = [''a'', ''b'']\<rparr>,
     indices = example_indices\<rparr>"

text \<open>
  Two arrays hold the same contents: same kind, dtype and length, same value bytes, and
  the same null bit for every row.
\<close>

definition same_logical_contents :: "array_info \<Rightarrow> array_info \<Rightarrow> bool" where
  "same_logical_contents a b \<longleftrightarrow>
     arr_type a = arr_type b \<and> dtype a = dtype b \<and> arr_length a = arr_length b
     \<and> data1 a = data1 b
     \<and> (\<forall>i < arr_length a. GetBit (null_bitmask a) i = GetBit (null_bitmask b) i)"

definition example_buffer :: array_info where
  "example_buffer = \<lparr>arr_type = NULLABLE_INT_BOOL, dtype = UINT8, arr_length = 8,
     num_categories = 0,
     data1 = [1, 2, 3, 4, 5, 6, 7, 8, 0, 0, 0, 0, 0, 0, 0, 0],
     null_bitmask = [0xFF, 0x00]\<rparr>"

definition example_batch :: array_info where
  "example_batch = \<lparr>arr_type = NULLABLE_INT_BOOL, dtype = UINT8, arr_length = 3,
     num_categories = 0,
     data1 = [9, 10, 11], null_bitmask = [0xFD]\<rparr>"

section \<open>Cumulative-aggregate fast path: choosing the strategy\<close>

text \<open>
  \<^verbatim>\<open>bodo/libs/_groupby_mpi_exscan.cpp\<close>, \<^verbatim>\<open>determine_groupby_strategy\<close>. The table is its
  list of columns, \<^verbatim>\<open>ftypes\<close> and \<^verbatim>\<open>func_offsets\<close> are the two C arrays. The constant
  \<^verbatim>\<open>max_global_number_groups_exscan\<close> is declared in a header outside the modelled files and
  is the first parameter. The result is \<open>None\<close> where the C++ would index out of range.
\<close>

definition determine_groupby_strategy ::
  "nat \<Rightarrow> 'z array_header_scheme list \<Rightarrow> nat \<Rightarrow> FTypes list \<Rightarrow> int list \<Rightarrow> bool
     \<Rightarrow> int option" where
  "determine_groupby_strategy max_global_number_groups_exscan in_tbl num_keys ftypes
       func_offsets input_has_index =
     (let index_i = (if input_has_index then 1 else 0);
          ncols = length in_tbl
      in if ncols < num_keys + index_i \<or> length func_offsets \<le> ncols - num_keys - index_i
         then None
         else if int (length ftypes) < func_offsets ! (ncols - num_keys - index_i)
         then None
         else
           (case fold (\<lambda>i (has_non_cumulative_op, has_cumulative_op).
                    let ftype = ftypes ! i
                    in if ftype = cumsum \<or> ftype = cummin \<or> ftype = cumprod \<or> ftype = cummax
                       then (has_non_cumulative_op, True)
                       else (True, has_cumulative_op))
                  [0..<nat (func_offsets ! (ncols - num_keys - index_i))] (False, False) of
              (has_non_cumulative_op, has_cumulative_op) \<Rightarrow>
                if has_non_cumulative_op then Some 0
                else if \<not> has_cumulative_op then Some 0
                else
                  let has_non_arithmetic_type =
                        fold (\<lambda>i has_non_arithmetic_type.
                            let oper_col = in_tbl ! i
                            in if arr_type oper_col \<noteq> NUMPY
                                  \<and> arr_type oper_col \<noteq> NULLABLE_INT_BOOL
                               then True else has_non_arithmetic_type)
                          [num_keys..<ncols - index_i] False
                  in if has_non_arithmetic_type then Some 0
                     else if num_keys > 1 then Some 2
                     else if ncols = 0 then None
                     else
                       let key_arr_type = arr_type (in_tbl ! 0)
                       in if key_arr_type \<noteq> CATEGORICAL then Some 2
                          else if num_categories (in_tbl ! 0)
                                    > max_global_number_groups_exscan
                          then Some 0
                          else Some 1))"

text \<open>
  \<^verbatim>\<open>compute_categorical_index\<close>, up to its threshold test: \<open>n_rows_of_rank\<close> gives, for each
  rank, the number of rows of its \<^verbatim>\<open>red_table\<close> (the distinct key rows that
  \<^verbatim>\<open>drop_duplicates_keys\<close> leaves); \<^verbatim>\<open>MPI_Allreduce\<close> with \<^verbatim>\<open>MPI_SUM\<close> adds them up.
  \<open>None\<close> is the \<^verbatim>\<open>nullptr\<close> result; otherwise the function goes on to build the index
  array, of which only the number of categories, \<open>n_rows_full\<close>, is kept here.
\<close>

definition compute_categorical_index ::
  "nat \<Rightarrow> bool \<Rightarrow> nat list \<Rightarrow> nat \<Rightarrow> nat option" where
  "compute_categorical_index max_global_number_groups_exscan is_parallel n_rows_of_rank my_rank =
     (let n_rows = n_rows_of_rank ! my_rank;
          n_rows_full = (if is_parallel then sum_list n_rows_of_rank else n_rows)
      in if n_rows_full > max_global_number_groups_exscan then None
         else Some n_rows_full)"

text \<open>
  The rule as the spec words it: (1) any non-cumulative function requested: ineligible;
  (2) any operand column non-numeric: ineligible; (3) the global number of distinct
  key-groups above the ceiling: ineligible; otherwise eligible.
\<close>

definition is_cumulative :: "FTypes \<Rightarrow> bool" where
  "is_cumulative f \<longleftrightarrow> f = cumsum \<or> f = cumprod \<or> f = cummin \<or> f = cummax"

definition is_numeric_column :: "'z array_header_scheme \<Rightarrow> bool" where
  "is_numeric_column c \<longleftrightarrow> arr_type c = NUMPY \<or> arr_type c = NULLABLE_INT_BOOL"

definition spec_exscan_eligible ::
  "nat \<Rightarrow> FTypes list \<Rightarrow> 'z array_header_scheme list \<Rightarrow> nat \<Rightarrow> bool" where
  "spec_exscan_eligible max_groups requested operand_cols n_groups =
     (if list_ex (\<lambda>f. \<not> is_cumulative f) requested then False
      else if list_ex (\<lambda>c. \<not> is_numeric_column c) operand_cols then False
      else if n_groups > max_groups then False
      else True)"

definition example_key_col :: array_header where
  "example_key_col = \<lparr>arr_type = NUMPY, dtype = INT64, arr_length = 3, num_categories = 0\<rparr>"

definition example_cat_key_col :: array_header where
  "example_cat_key_col =
     \<lparr>arr_type = CATEGORICAL, dtype = INT8, arr_length = 3, num_categories = 2\<rparr>"

definition example_data_col :: array_header where
  "example_data_col = \<lparr>arr_type = NUMPY, dtype = INT64, arr_length = 3, num_categories = 0\<rparr>"

section \<open>Cumulative-aggregate fast path: identities\<close>

text \<open>
  The element type \<^verbatim>\<open>T\<close> of a column is a template parameter of the scan
  (\<^verbatim>\<open>mpi_exscan_computation_numpy_T\<close>, \<^verbatim>\<open>mpi_exscan_computation_nullable_T\<close>). What the
  initialisation takes from \<^verbatim>\<open>T\<close> is the conversion of an integer literal and
  \<^verbatim>\<open>std::numeric_limits<T>::min()\<close> and \<^verbatim>\<open>max()\<close>; a record holds the three. Values of all
  dtypes live in one type \<open>scalar\<close>; floating-point values are the reals they denote, and
  \<open>Float_NaN\<close> is the quiet NaN.
\<close>

datatype scalar = Int_val int | Bool_val bool | Float_val real | Float_NaN

record 'a T_consts =
  T_cast :: "int \<Rightarrow> 'a"
  T_limits_min :: 'a
  T_limits_max :: 'a

text \<open>
  Conversion of an \<^verbatim>\<open>int\<close> to a signed or unsigned integer type of \<open>w\<close> bits, and the ten
  element types the scan is instantiated with. For a floating-point type
  \<^verbatim>\<open>numeric_limits<T>::min()\<close> is the smallest positive normal value, as C++ defines it.
\<close>

definition wrap_signed :: "nat \<Rightarrow> int \<Rightarrow> int" where
  "wrap_signed w i = (i + 2 ^ (w - 1)) mod 2 ^ w - 2 ^ (w - 1)"

definition wrap_unsigned :: "nat \<Rightarrow> int \<Rightarrow> int" where
  "wrap_unsigned w i = i mod 2 ^ w"

definition T_int8 :: "scalar T_consts" where
  "T_int8 = \<lparr>T_cast = (\<lambda>i. Int_val (wrap_signed 8 i)),
     T_limits_min = Int_val (- 128), T_limits_max = Int_val 127\<rparr>"

definition T_uint8 :: "scalar T_consts" where
  "T_uint8 = \<lparr>T_cast = (\<lambda>i. Int_val (wrap_unsigned 8 i)),
     T_limits_min = Int_val 0, T_limits_max = Int_val 255\<rparr>"

definition T_int16 :: "scalar T_consts" where
  "T_int16 = \<lparr>T_cast = (\<lambda>i. Int_val (wrap_signed 16 i)),
     T_limits_min = Int_val (- 32768), T_limits_max = Int_val 32767\<rparr>"

definition T_uint16 :: "scalar T_consts" where
  "T_uint16 = \<lparr>T_cast = (\<lambda>i. Int_val (wrap_unsigned 16 i)),
     T_limits_min = Int_val 0, T_limits_max = Int_val 65535\<rparr>"

definition T_int32 :: "scalar T_consts" where
  "T_int32 = \<lparr>T_cast = (\<lambda>i. Int_val (wrap_signed 32 i)),
     T_limits_min = Int_val (- 2147483648), T_limits_max = Int_val 2147483647\<rparr>"

definition T_uint32 :: "scalar T_consts" where
  "T_uint32 = \<lparr>T_cast = (\<lambda>i. Int_val (wrap_unsigned 32 i)),
     T_limits_min = Int_val 0, T_limits_max = Int_val 4294967295\<rparr>"

definition T_int64 :: "scalar T_consts" where
  "T_int64 = \<lparr>T_cast = (\<lambda>i. Int_val (wrap_signed 64 i)),
     T_limits_min = Int_val (- 9223372036854775808),
     T_limits_max = Int_val 9223372036854775807\<rparr>"

definition T_uint64 :: "scalar T_consts" where
  "T_uint64 = \<lparr>T_cast = (\<lambda>i. Int_val (wrap_unsigned 64 i)),
     T_limits_min = Int_val 0, T_limits_max = Int_val 18446744073709551615\<rparr>"

definition T_float :: "scalar T_consts" where
  "T_float = \<lparr>T_cast = (\<lambda>i. Float_val (of_int i)),
     T_limits_min = Float_val (1 / 2 ^ 126),
     T_limits_max = Float_val ((2 - 1 / 2 ^ 23) * 2 ^ 127)\<rparr>"

definition T_double :: "scalar T_consts" where
  "T_double = \<lparr>T_cast = (\<lambda>i. Float_val (of_int i)),
     T_limits_min = Float_val (1 / 2 ^ 1022),
     T_limits_max = Float_val ((2 - 1 / 2 ^ 52) * 2 ^ 1023)\<rparr>"

text \<open>The dispatch on the column dtype in \<^verbatim>\<open>mpi_exscan_computation_Tkey\<close>; other dtypes
  are not computed.\<close>

definition exscan_T_of_dtype :: "CTypeEnum \<Rightarrow> scalar T_consts option" where
  "exscan_T_of_dtype d =
     (if d = INT8 then Some T_int8
      else if d = UINT8 then Some T_uint8
      else if d = INT16 then Some T_int16
      else if d = UINT16 then Some T_uint16
      else if d = INT32 then Some T_int32
      else if d = UINT32 then Some T_uint32
      else if d = INT64 then Some T_int64
      else if d = UINT64 then Some T_uint64
      else if d = FLOAT32 then Some T_float
      else if d = FLOAT64 then Some T_double
      else None)"

text \<open>
  Lines 190 to 206 (and again 328 to 344): \<^verbatim>\<open>T value_init = -1\<close>, overwritten by the
  function's identity, and the loop that stores it in the slice of \<^verbatim>\<open>cumulative\<close> of
  function \<open>j\<close>. The vector is created value-initialised, with
  \<^verbatim>\<open>max_row_idx * n_oper\<close> entries.
\<close>

definition value_init :: "('a, 'z) T_consts_scheme \<Rightarrow> FTypes \<Rightarrow> 'a" where
  "value_init T ftype =
     (if ftype = cumsum then T_cast T 0
      else if ftype = cumprod then T_cast T 1
      else if ftype = cummax then T_limits_min T
      else if ftype = cummin then T_limits_max T
      else T_cast T (- 1))"

definition init_cumulative ::
  "('a, 'z) T_consts_scheme \<Rightarrow> FTypes list \<Rightarrow> nat \<Rightarrow> nat \<Rightarrow> nat \<Rightarrow> 'a list" where
  "init_cumulative T ftypes start end max_row_idx =
     fold (\<lambda>j cumulative.
             let ftype = ftypes ! j
             in fold (\<lambda>i_row cumulative.
                        cumulative[i_row + max_row_idx * (j - start) := value_init T ftype])
                  [0..<max_row_idx] cumulative)
       [start..<end]
       (replicate (max_row_idx * (end - start)) (T_cast T 0))"


section \<open>Initialising aggregate output columns\<close>

text \<open>
  \<^verbatim>\<open>bodo/libs/_groupby_common.cpp\<close>, \<^verbatim>\<open>aggfunc_output_initialize_kernel\<close>. The column is
  seen at its element type: \<open>elems\<close> is \<^verbatim>\<open>data1\<close> and \<open>null_bits\<close> the null bitmap, one
  entry per row. \<^verbatim>\<open>Bodo_PyErr_SetString\<close> sets the Python error and the function returns;
  the error is returned with the column as it stands. \<open>fill n v\<close> is
  \<^verbatim>\<open>std::fill(p, p + n, v)\<close>; \<^verbatim>\<open>InitializeBitMask\<close> sets the null bit of every row.
\<close>

datatype py_error = unsupported_aggregate_function FTypes CTypeEnum

record 'a typed_array = array_header +
  elems :: "'a list"
  null_bits :: "bool list"

definition fill :: "nat \<Rightarrow> 'a \<Rightarrow> 'a list \<Rightarrow> 'a list" where
  "fill n v xs = replicate n v @ drop n xs"

definition fill_data1 ::
  "nat \<Rightarrow> scalar \<Rightarrow> scalar typed_array \<Rightarrow> py_error option \<times> scalar typed_array" where
  "fill_data1 n v out_col = (None, out_col\<lparr>elems := fill n v (elems out_col)\<rparr>)"

definition unsupported ::
  "FTypes \<Rightarrow> scalar typed_array \<Rightarrow> py_error option \<times> scalar typed_array" where
  "unsupported ftype out_col =
     (Some (unsupported_aggregate_function ftype (dtype out_col)), out_col)"

definition initialize_prod ::
  "scalar typed_array \<Rightarrow> py_error option \<times> scalar typed_array" where
  "initialize_prod out_col =
     (let n = arr_length out_col
      in case dtype out_col of
           BOOL \<Rightarrow> fill_data1 n (Bool_val True) out_col
         | INT8 \<Rightarrow> fill_data1 n (T_cast T_int8 1) out_col
         | UINT8 \<Rightarrow> fill_data1 n (T_cast T_uint8 1) out_col
         | INT16 \<Rightarrow> fill_data1 n (T_cast T_int16 1) out_col
         | UINT16 \<Rightarrow> fill_data1 n (T_cast T_uint16 1) out_col
         | INT32 \<Rightarrow> fill_data1 n (T_cast T_int32 1) out_col
         | UINT32 \<Rightarrow> fill_data1 n (T_cast T_uint32 1) out_col
         | INT64 \<Rightarrow> fill_data1 n (T_cast T_int64 1) out_col
         | UINT64 \<Rightarrow> fill_data1 n (T_cast T_uint64 1) out_col
         | FLOAT32 \<Rightarrow> fill_data1 n (T_cast T_float 1) out_col
         | FLOAT64 \<Rightarrow> fill_data1 n (T_cast T_double 1) out_col
         | _ \<Rightarrow> unsupported prod_f out_col)"

definition initialize_min ::
  "scalar typed_array \<Rightarrow> py_error option \<times> scalar typed_array" where
  "initialize_min out_col =
     (let n = arr_length out_col
      in case dtype out_col of
           BOOL \<Rightarrow> fill_data1 n (Bool_val True) out_col
         | INT8 \<Rightarrow> fill_data1 n (T_limits_max T_int8) out_col
         | UINT8 \<Rightarrow> fill_data1 n (T_limits_max T_uint8) out_col
         | INT16 \<Rightarrow> fill_data1 n (T_limits_max T_int16) out_col
         | UINT16 \<Rightarrow> fill_data1 n (T_limits_max T_uint16) out_col
         | INT32 \<Rightarrow> fill_data1 n (T_limits_max T_int32) out_col
         | UINT32 \<Rightarrow> fill_data1 n (T_limits_max T_uint32) out_col
         | INT64 \<Rightarrow> fill_data1 n (T_limits_max T_int64) out_col
         | UINT64 \<Rightarrow> fill_data1 n (T_limits_max T_uint64) out_col
         | DATE \<Rightarrow> fill_data1 n (T_limits_max T_int64) out_col
         | DATETIME \<Rightarrow> fill_data1 n (T_limits_max T_int64) out_col
         | TIMEDELTA \<Rightarrow> fill_data1 n (T_limits_max T_int64) out_col
         | TIME \<Rightarrow> fill_data1 n (T_limits_max T_int64) out_col
         | FLOAT32 \<Rightarrow> fill_data1 n Float_NaN out_col
         | FLOAT64 \<Rightarrow> fill_data1 n Float_NaN out_col
         | DECIMAL \<Rightarrow> fill_data1 (2 * n) (T_limits_max T_int64) out_col
         | STRING_dtype \<Rightarrow> (None, out_col)
         | BINARY \<Rightarrow> (None, out_col)
         | LIST_STRING_dtype \<Rightarrow> (None, out_col)
         | _ \<Rightarrow> unsupported min_f out_col)"

definition initialize_max ::
  "scalar typed_array \<Rightarrow> py_error option \<times> scalar typed_array" where
  "initialize_max out_col =
     (let n = arr_length out_col
      in case dtype out_col of
           BOOL \<Rightarrow> fill_data1 n (Bool_val False) out_col
         | INT8 \<Rightarrow> fill_data1 n (T_limits_min T_int8) out_col
         | UINT8 \<Rightarrow> fill_data1 n (T_limits_min T_uint8) out_col
         | INT16 \<Rightarrow> fill_data1 n (T_limits_min T_int16) out_col
         | UINT16 \<Rightarrow> fill_data1 n (T_limits_min T_uint16) out_col
         | INT32 \<Rightarrow> fill_data1 n (T_limits_min T_int32) out_col
         | UINT32 \<Rightarrow> fill_data1 n (T_limits_min T_uint32) out_col
         | INT64 \<Rightarrow> fill_data1 n (T_limits_min T_int64) out_col
         | UINT64 \<Rightarrow> fill_data1 n (T_limits_min T_uint64) out_col
         | DATE \<Rightarrow> fill_data1 n (T_limits_min T_int64) out_col
         | DATETIME \<Rightarrow> fill_data1 n (T_limits_min T_int64) out_col
         | TIMEDELTA \<Rightarrow> fill_data1 n (T_limits_min T_int64) out_col
         | TIME \<Rightarrow> fill_data1 n (T_limits_min T_int64) out_col
         | FLOAT32 \<Rightarrow> fill_data1 n Float_NaN out_col
         | FLOAT64 \<Rightarrow> fill_data1 n Float_NaN out_col
         | DECIMAL \<Rightarrow> fill_data1 (2 * n) (T_limits_min T_int64) out_col
         | STRING_dtype \<Rightarrow> (None, out_col)
         | BINARY \<Rightarrow> (None, out_col)
         | LIST_STRING_dtype \<Rightarrow> (None, out_col)
         | _ \<Rightarrow> unsupported max_f out_col)"

definition initialize_first_last ::
  "scalar typed_array \<Rightarrow> py_error option \<times> scalar typed_array" where
  "initialize_first_last out_col =
     (let n = arr_length out_col
      in case dtype out_col of
           DATE \<Rightarrow> fill_data1 n (T_limits_min T_int64) out_col
         | DATETIME \<Rightarrow> fill_data1 n (T_limits_min T_int64) out_col
         | TIMEDELTA \<Rightarrow> fill_data1 n (T_limits_min T_int64) out_col
         | TIME \<Rightarrow> fill_data1 n (T_limits_min T_int64) out_col
         | FLOAT32 \<Rightarrow> fill_data1 n Float_NaN out_col
         | FLOAT64 \<Rightarrow> fill_data1 n Float_NaN out_col
         | _ \<Rightarrow> (None, out_col))"

text \<open>The default case, \<^verbatim>\<open>memset(data1, 0, numpy_item_size[dtype] * length)\<close>: every element
  becomes the value whose bytes are all zero.\<close>

definition zero_bytes_value :: "CTypeEnum \<Rightarrow> scalar" where
  "zero_bytes_value d =
     (if d = BOOL then Bool_val False
      else if d = FLOAT32 \<or> d = FLOAT64 then Float_val 0
      else Int_val 0)"

definition initialize_categorical ::
  "FTypes \<Rightarrow> scalar typed_array \<Rightarrow> py_error option \<times> scalar typed_array" where
  "initialize_categorical ftype out_col =
     (let n = arr_length out_col;
          init_val = (if ftype = min_f then wrap_signed 32 (int (num_categories out_col))
                      else - 1)
      in case dtype out_col of
           INT8 \<Rightarrow> fill_data1 n (T_cast T_int8 init_val) out_col
         | INT16 \<Rightarrow> fill_data1 n (T_cast T_int16 init_val) out_col
         | INT32 \<Rightarrow> fill_data1 n (T_cast T_int32 init_val) out_col
         | INT64 \<Rightarrow> fill_data1 n (T_cast T_int64 init_val) out_col
         | _ \<Rightarrow> unsupported ftype out_col)"

definition aggfunc_output_initialize_kernel ::
  "scalar typed_array \<Rightarrow> FTypes \<Rightarrow> bool \<Rightarrow> py_error option \<times> scalar typed_array" where
  "aggfunc_output_initialize_kernel out_col0 ftype use_sql_rules =
     (let n = arr_length out_col0;
          out_col1 =
            (if arr_type out_col0 = NULLABLE_INT_BOOL
             then
               let init_val =
                     (if use_sql_rules then ftype = count_f
                      else if ftype = min_f \<or> ftype = max_f \<or> ftype = first_f
                              \<or> ftype = last_f \<or> ftype = boolor_agg \<or> ftype = mean
                              \<or> ftype = var \<or> ftype = std \<or> ftype = median
                      then False
                      else True)
               in out_col0\<lparr>null_bits := fill n init_val (null_bits out_col0)\<rparr>
             else out_col0);
          out_col =
            (if arr_type out_col1 = STRING \<or> arr_type out_col1 = LIST_STRING
             then out_col1\<lparr>null_bits := fill n False (null_bits out_col1)\<rparr>
             else out_col1)
      in if arr_type out_col = CATEGORICAL
            \<and> (ftype = min_f \<or> ftype = max_f \<or> ftype = first_f \<or> ftype = last_f)
         then initialize_categorical ftype out_col
         else if ftype = prod_f then initialize_prod out_col
         else if ftype = min_f then initialize_min out_col
         else if ftype = max_f then initialize_max out_col
         else if ftype = first_f \<or> ftype = last_f then initialize_first_last out_col
         else if ftype = min_row_number_filter then fill_data1 n (Bool_val False) out_col
         else fill_data1 (if dtype out_col = DECIMAL then 2 * n else n)
                (zero_bytes_value (dtype out_col)) out_col)"

definition aggfunc_output_initialize ::
  "scalar typed_array \<Rightarrow> FTypes \<Rightarrow> bool \<Rightarrow> py_error option \<times> scalar typed_array" where
  "aggfunc_output_initialize out_col ftype use_sql_rules =
     aggfunc_output_initialize_kernel out_col ftype use_sql_rules"

text \<open>
  The terms of the claim: the integer and floating-point dtypes, their width and
  signedness, the least and greatest value of a dtype (for a floating-point dtype the
  greatest finite value and its negation), and zero and one at a dtype.
\<close>

definition is_integer_dtype :: "CTypeEnum \<Rightarrow> bool" where
  "is_integer_dtype d \<longleftrightarrow>
     d = INT8 \<or> d = UINT8 \<or> d = INT16 \<or> d = UINT16 \<or> d = INT32 \<or> d = UINT32
     \<or> d = INT64 \<or> d = UINT64"

definition is_float_dtype :: "CTypeEnum \<Rightarrow> bool" where
  "is_float_dtype d \<longleftrightarrow> d = FLOAT32 \<or> d = FLOAT64"

definition dtype_bits :: "CTypeEnum \<Rightarrow> nat" where
  "dtype_bits d =
     (if d = INT8 \<or> d = UINT8 then 8
      else if d = INT16 \<or> d = UINT16 then 16
      else if d = INT32 \<or> d = UINT32 \<or> d = FLOAT32 then 32
      else 64)"

definition dtype_signed :: "CTypeEnum \<Rightarrow> bool" where
  "dtype_signed d \<longleftrightarrow> d = INT8 \<or> d = INT16 \<or> d = INT32 \<or> d = INT64"

definition float_largest_finite :: "CTypeEnum \<Rightarrow> real" where
  "float_largest_finite d =
     (if d = FLOAT32 then (2 - 1 / 2 ^ 23) * 2 ^ 127 else (2 - 1 / 2 ^ 52) * 2 ^ 1023)"

definition dtype_min_value :: "CTypeEnum \<Rightarrow> scalar" where
  "dtype_min_value d =
     (if is_float_dtype d then Float_val (- float_largest_finite d)
      else if dtype_signed d then Int_val (- (2 ^ (dtype_bits d - 1)))
      else Int_val 0)"

definition dtype_max_value :: "CTypeEnum \<Rightarrow> scalar" where
  "dtype_max_value d =
     (if is_float_dtype d then Float_val (float_largest_finite d)
      else if dtype_signed d then Int_val (2 ^ (dtype_bits d - 1) - 1)
      else Int_val (2 ^ dtype_bits d - 1))"

definition dtype_zero :: "CTypeEnum \<Rightarrow> scalar" where
  "dtype_zero d = (if is_float_dtype d then Float_val 0 else Int_val 0)"

definition dtype_one :: "CTypeEnum \<Rightarrow> scalar" where
  "dtype_one d = (if is_float_dtype d then Float_val 1 else Int_val 1)"

definition example_float64_col :: "scalar typed_array" where
  "example_float64_col = \<lparr>arr_type = NUMPY, dtype = FLOAT64, arr_length = 2,
     num_categories = 0, elems = [Float_val 0, Float_val 0], null_bits = []\<rparr>"

definition example_int8_col :: "scalar typed_array" where
  "example_int8_col = \<lparr>arr_type = NULLABLE_INT_BOOL, dtype = INT8, arr_length = 2,
     num_categories = 0, elems = [Int_val 0, Int_val 0], null_bits = [False, False]\<rparr>"


section \<open>Streaming groupby: sequences of group lookups\<close>

text \<open>
  The rows, and the next group id, of the local or of the shuffle build table, and a
  sequence of calls of \<^verbatim>\<open>update_groups<is_local>\<close>: each call is made, as in
  \<^verbatim>\<open>groupby_build_consume_batch\<close>, on some row of the current input table, with the state's
  input table and its hashes set to that table. The result is the final state and the
  group id each call stored for its row.
\<close>

definition build_rows :: "bool \<Rightarrow> 'a GroupbyState \<Rightarrow> 'a row list" where
  "build_rows is_local st =
     data_table (if is_local then local_table_buffer st else shuffle_table_buffer st)"

definition next_group_of :: "bool \<Rightarrow> 'a GroupbyState \<Rightarrow> int" where
  "next_group_of is_local st = (if is_local then local_next_group st else shuffle_next_group st)"

fun run_update_groups ::
  "'a groupby_env \<Rightarrow> bool \<Rightarrow> 'a GroupbyState \<Rightarrow> ('a row list \<times> nat) list
     \<Rightarrow> 'a GroupbyState \<times> int list" where
  "run_update_groups env is_local st [] = (st, [])"
| "run_update_groups env is_local st ((in_tbl, i_row) # steps) =
     (let hashes = hash_keys_table (hash_keys_groupby env) in_tbl (n_keys st);
          st0 = st\<lparr>in_table := in_tbl, in_table_hashes := hashes\<rparr>
      in case update_groups env is_local st0 (replicate (length in_tbl) (- 1)) in_tbl hashes
                i_row of
           (st1, row_to_group) \<Rightarrow>
             (case run_update_groups env is_local st1 steps of
                (st2, gs) \<Rightarrow> (st2, row_to_group ! i_row # gs)))"

text \<open>
  The key a call looks up, and what makes a call well formed: the row exists and has all
  its key cells.
\<close>

definition step_key :: "nat \<Rightarrow> 'a row list \<times> nat \<Rightarrow> 'a option list" where
  "step_key keys step = take keys (fst (fst step ! snd step))"

definition step_ok :: "nat \<Rightarrow> 'a row list \<times> nat \<Rightarrow> bool" where
  "step_ok keys step \<longleftrightarrow>
     snd step < length (fst step) \<and> keys \<le> length (fst (fst step ! snd step))"

text \<open>
  The invariant of a build table with key rows \<open>K\<close>: row \<open>g\<close> of the buffer holds key
  \<open>K ! g\<close>, the keys are distinct, \<^verbatim>\<open>next_group\<close> is their number, the stored hashes are
  the hashes of the keys, and the hash map has exactly the entries \<open>g \<mapsto> g\<close>.
\<close>

definition side_inv ::
  "'a groupby_env \<Rightarrow> bool \<Rightarrow> 'a GroupbyState \<Rightarrow> 'a option list list \<Rightarrow> bool" where
  "side_inv env is_local st K \<longleftrightarrow>
     map fst (build_rows is_local st) = K
     \<and> (\<forall>k \<in> set K. length k = n_keys st)
     \<and> distinct K
     \<and> next_group_of is_local st = int (length K)
     \<and> (if is_local then local_table_groupby_hashes st else shuffle_table_groupby_hashes st)
         = map (hash_keys_groupby env) K
     \<and> (if is_local then local_build_table st else shuffle_build_table st)
         = map (\<lambda>g. (int g, int g)) [0..<length K]"

definition scenario_rows :: "string row list" where
  "scenario_rows = [([Some ''A''], [1]), ([Some ''B''], [2]), ([Some ''A''], [3])]"

definition scenario_state :: "string GroupbyState" where
  "scenario_state = GroupbyState_init 1 False [1]"

definition example_env :: "string groupby_env" where
  "example_env = single_process_env (\<lambda>_. 0) (\<lambda>_. 0) (\<lambda>_. 0)"

definition example_steps :: "(string row list \<times> nat) list" where
  "example_steps = [([([Some ''A''], [4]), ([Some ''B''], [2])], 0),
                    ([([Some ''A''], [4]), ([Some ''B''], [2])], 1)]"

definition example_step :: "string row list \<times> nat" where
  "example_step = ([([Some ''A''], [3])], 0)"

section \<open>Exclusive scan over nullable columns\<close>

text \<open>
  \<^verbatim>\<open>mpi_exscan_computation_nullable_T\<close> of \<^verbatim>\<open>_groupby_mpi_exscan.cpp\<close>. The element type
  \<open>T\<close> of the template is a record of its operations: the constants of \<open>T_consts\<close> and
  the four combining functions \<^verbatim>\<open>val1 + val2\<close>, \<^verbatim>\<open>val1 * val2\<close>, \<^verbatim>\<open>std::max\<close> and
  \<^verbatim>\<open>std::min\<close> that the \<^verbatim>\<open>if (ftype == ...)\<close> chains pass to \<^verbatim>\<open>apply_oper\<close>. A function
  type outside the four cumulative ones passes nothing: the column is left alone.
\<close>

record 'a T_arith = "'a T_consts" +
  T_add :: "'a \<Rightarrow> 'a \<Rightarrow> 'a"
  T_mul :: "'a \<Rightarrow> 'a \<Rightarrow> 'a"
  T_std_max :: "'a \<Rightarrow> 'a \<Rightarrow> 'a"
  T_std_min :: "'a \<Rightarrow> 'a \<Rightarrow> 'a"

definition oper_of :: "('a, 'z) T_arith_scheme \<Rightarrow> FTypes \<Rightarrow> ('a \<Rightarrow> 'a \<Rightarrow> 'a) option" where
  "oper_of T ftype =
     (if ftype = cumsum then Some (\<lambda>val1 val2. T_add T val1 val2)
      else if ftype = cumprod then Some (\<lambda>val1 val2. T_mul T val1 val2)
      else if ftype = cummax then Some (\<lambda>val1 val2. T_std_max T val1 val2)
      else if ftype = cummin then Some (\<lambda>val1 val2. T_std_min T val1 val2)
      else None)"

text \<open>
  \<^verbatim>\<open>array_info::set_null_bit\<close> on a column whose validity bits are a list of booleans
  (\<open>True\<close>: the row holds a value). What one process holds when the function is called:
  its slice of the categorical key column, of the input column and of the output columns.
\<close>

definition set_null_bit :: "'a typed_array \<Rightarrow> nat \<Rightarrow> bool \<Rightarrow> 'a typed_array" where
  "set_null_bit arr i b = arr\<lparr>null_bits := (null_bits arr)[i := b]\<rparr>"

record 'a exscan_rank =
  cat_column :: "int typed_array"
  in_col :: "'a typed_array"
  out_arrs :: "'a typed_array list"

text \<open>
  One row of the first \<^verbatim>\<open>apply_oper\<close> loop (lines 359-383), on the output column
  \<^verbatim>\<open>work_col\<close>, the running values \<^verbatim>\<open>cumulative\<close> and the bytes \<^verbatim>\<open>cumulative_mask\<close>.
  A key code is \<open>-1\<close> (no key) or the index of a category; the slot of a row is computed
  as a natural number, which is the source's \<^verbatim>\<open>size_t\<close> index for every such code.
\<close>

definition local_row ::
  "('a \<Rightarrow> 'a \<Rightarrow> 'a) \<Rightarrow> bool \<Rightarrow> int typed_array \<Rightarrow> 'a typed_array \<Rightarrow> nat \<Rightarrow> nat \<Rightarrow> nat
     \<Rightarrow> 'a typed_array \<times> 'a list \<times> byte list \<Rightarrow> 'a typed_array \<times> 'a list \<times> byte list" where
  "local_row oper skipdropna cat in_column max_row_idx j_rel i_row =
     (\<lambda>(work_col, cumulative, cumulative_mask).
        let idx = elems cat ! i_row
        in if idx = - 1
           then (set_null_bit work_col i_row False, cumulative, cumulative_mask)
           else
             let pos = nat idx + max_row_idx * j_rel;
                 val = elems in_column ! i_row;
                 bit_i = null_bits in_column ! i_row;
                 new_val = oper val (cumulative ! pos);
                 work1 = work_col\<lparr>elems := (elems work_col)[i_row := new_val]\<rparr>
             in if skipdropna
                then (set_null_bit work1 i_row bit_i,
                      if bit_i then cumulative[pos := new_val] else cumulative,
                      cumulative_mask)
                else if bit_i
                then (if cumulative_mask ! pos = 1
                      then (set_null_bit work1 i_row False, cumulative, cumulative_mask)
                      else (set_null_bit work1 i_row bit_i, cumulative[pos := new_val],
                            cumulative_mask))
                else (set_null_bit work1 i_row bit_i, cumulative,
                      cumulative_mask[pos := 1]))"

text \<open>
  The body of the first \<^verbatim>\<open>for (int j = start; j != end; j++)\<close> loop over the functions,
  and the whole local pass of one process: the running values start at the identities,
  the mask is \<^verbatim>\<open>std::vector<uint8_t>(max_row_idx * n_oper, 0)\<close> when nulls are not skipped and
  stays empty otherwise.
\<close>

definition local_phase_step ::
  "('a, 'z) T_arith_scheme \<Rightarrow> FTypes list \<Rightarrow> nat \<Rightarrow> bool \<Rightarrow> int typed_array \<Rightarrow> 'a typed_array
     \<Rightarrow> nat \<Rightarrow> nat \<Rightarrow> nat \<Rightarrow> 'a typed_array list \<times> 'a list \<times> byte list
     \<Rightarrow> 'a typed_array list \<times> 'a list \<times> byte list" where
  "local_phase_step T ftypes start skipdropna cat in_column max_row_idx n_rows j =
     (\<lambda>(arrs, cumulative, cumulative_mask).
        case oper_of T (ftypes ! j) of
          None \<Rightarrow> (arrs, cumulative, cumulative_mask)
        | Some oper \<Rightarrow>
            (case fold (local_row oper skipdropna cat in_column max_row_idx (j - start))
                    [0..<n_rows] (arrs ! j, cumulative, cumulative_mask) of
               (work_col, c, m) \<Rightarrow> (arrs[j := work_col], c, m)))"

definition local_phase ::
  "('a, 'z) T_arith_scheme \<Rightarrow> FTypes list \<Rightarrow> nat \<Rightarrow> nat \<Rightarrow> bool \<Rightarrow> 'a exscan_rank
     \<Rightarrow> 'a typed_array list \<times> 'a list \<times> byte list" where
  "local_phase T ftypes start end skipdropna rank =
     (let n_rows = arr_length (in_col rank);
          max_row_idx = num_categories (cat_column rank);
          n_oper = end - start;
          cumulative = init_cumulative T ftypes start end max_row_idx;
          cumulative_mask = (if \<not> skipdropna then replicate (max_row_idx * n_oper) 0 else [])
      in fold (local_phase_step T ftypes start skipdropna (cat_column rank) (in_col rank)
                 max_row_idx n_rows)
           [start..<end] (out_arrs rank, cumulative, cumulative_mask))"

text \<open>
  \<^verbatim>\<open>MPI_Exscan(sendbuf, recvbuf, count, type, op, MPI_COMM_WORLD)\<close> on the buffers of all
  processes, in rank order, at offset \<open>off\<close>: process \<open>r > 0\<close> receives the elementwise
  combination of the send buffers of the processes \<open>0 .. r - 1\<close>; the receive buffer of
  process 0 is left as it was. The scan of the values is called once per function on its
  slice, the scan of the mask once on the whole vector with \<^verbatim>\<open>MPI_MAX\<close>, into receive
  buffers that start as zeros.
\<close>

definition exscan_combine :: "('a \<Rightarrow> 'a \<Rightarrow> 'a) \<Rightarrow> 'a list list \<Rightarrow> 'a list" where
  "exscan_combine op bufs = foldl (\<lambda>acc buf. map2 op acc buf) (hd bufs) (tl bufs)"

definition MPI_Exscan ::
  "('a \<Rightarrow> 'a \<Rightarrow> 'a) \<Rightarrow> nat \<Rightarrow> nat \<Rightarrow> 'a list list \<Rightarrow> 'a list list \<Rightarrow> 'a list list" where
  "MPI_Exscan op off count sends recvs =
     map (\<lambda>r. if r = 0 then recvs ! r
              else take off (recvs ! r)
                   @ exscan_combine op (map (\<lambda>s. take count (drop off s)) (take r sends))
                   @ drop (off + count) (recvs ! r))
       [0..<length sends]"

definition exscan_values ::
  "('a, 'z) T_arith_scheme \<Rightarrow> FTypes list \<Rightarrow> nat \<Rightarrow> nat \<Rightarrow> nat \<Rightarrow> 'a list list \<Rightarrow> 'a list list
     \<Rightarrow> 'a list list" where
  "exscan_values T ftypes start end max_row_idx cumulatives cumulative_recvs =
     fold (\<lambda>j recvs.
             case oper_of T (ftypes ! j) of
               None \<Rightarrow> recvs
             | Some op \<Rightarrow> MPI_Exscan op (max_row_idx * (j - start)) max_row_idx cumulatives recvs)
       [start..<end] cumulative_recvs"

definition exscan_mask :: "nat \<Rightarrow> nat \<Rightarrow> byte list list \<Rightarrow> byte list list" where
  "exscan_mask max_row_idx n_oper cumulative_masks =
     MPI_Exscan max 0 (max_row_idx * n_oper) cumulative_masks
       (map (\<lambda>_. replicate (max_row_idx * n_oper) 0) cumulative_masks)"

text \<open>
  One row of the second \<^verbatim>\<open>apply_oper\<close> loop (lines 428-438), the body of the last loop
  over the functions, and the final pass of one process.
\<close>

definition final_row ::
  "('a \<Rightarrow> 'a \<Rightarrow> 'a) \<Rightarrow> bool \<Rightarrow> int typed_array \<Rightarrow> nat \<Rightarrow> nat \<Rightarrow> 'a list \<Rightarrow> byte list
     \<Rightarrow> nat \<Rightarrow> 'a typed_array \<Rightarrow> 'a typed_array" where
  "final_row oper skipdropna cat max_row_idx j_rel cumulative_recv cumulative_mask_recv i_row
       work_col =
     (let idx = elems cat ! i_row
      in if idx \<noteq> - 1
         then
           let pos = nat idx + max_row_idx * j_rel;
               val = elems work_col ! i_row;
               new_val = oper val (cumulative_recv ! pos);
               work1 = work_col\<lparr>elems := (elems work_col)[i_row := new_val]\<rparr>
           in if \<not> skipdropna \<and> cumulative_mask_recv ! pos = 1
              then set_null_bit work1 i_row False
              else work1
         else work_col)"

definition final_phase_step ::
  "('a, 'z) T_arith_scheme \<Rightarrow> FTypes list \<Rightarrow> nat \<Rightarrow> bool \<Rightarrow> int typed_array \<Rightarrow> nat \<Rightarrow> nat
     \<Rightarrow> 'a list \<Rightarrow> byte list \<Rightarrow> nat \<Rightarrow> 'a typed_array list \<Rightarrow> 'a typed_array list" where
  "final_phase_step T ftypes start skipdropna cat max_row_idx n_rows cumulative_recv
       cumulative_mask_recv j arrs =
     (case oper_of T (ftypes ! j) of
        None \<Rightarrow> arrs
      | Some oper \<Rightarrow>
          arrs[j := fold (final_row oper skipdropna cat max_row_idx (j - start) cumulative_recv
                            cumulative_mask_recv)
                      [0..<n_rows] (arrs ! j)])"

definition final_phase ::
  "('a, 'z) T_arith_scheme \<Rightarrow> FTypes list \<Rightarrow> nat \<Rightarrow> nat \<Rightarrow> bool \<Rightarrow> 'a exscan_rank
     \<Rightarrow> 'a typed_array list \<Rightarrow> 'a list \<Rightarrow> byte list \<Rightarrow> 'a typed_array list" where
  "final_phase T ftypes start end skipdropna rank arrs0 cumulative_recv cumulative_mask_recv =
     (let n_rows = arr_length (in_col rank);
          max_row_idx = num_categories (cat_column rank)
      in fold (final_phase_step T ftypes start skipdropna (cat_column rank) max_row_idx n_rows
                 cumulative_recv cumulative_mask_recv)
           [start..<end] arrs0)"

text \<open>
  The function on all processes at once: \<open>ranks\<close> lists what each process holds, in rank
  order, and the result lists the output columns of each process. \<^verbatim>\<open>max_row_idx\<close> is the
  number of categories, the same on every process. Without \<^verbatim>\<open>is_parallel\<close> the function
  returns after the local pass.
\<close>

definition mpi_exscan_computation_nullable_T ::
  "('a, 'z) T_arith_scheme \<Rightarrow> FTypes list \<Rightarrow> int list \<Rightarrow> nat \<Rightarrow> bool \<Rightarrow> bool
     \<Rightarrow> 'a exscan_rank list \<Rightarrow> 'a typed_array list list" where
  "mpi_exscan_computation_nullable_T T ftypes func_offsets k is_parallel skipdropna ranks =
     (let start = nat (func_offsets ! k);
          end = nat (func_offsets ! (k + 1));
          n_oper = end - start;
          max_row_idx = num_categories (cat_column (hd ranks));
          locals = map (local_phase T ftypes start end skipdropna) ranks
      in if \<not> is_parallel then map fst locals
         else
           let cumulative_recvs =
                 exscan_values T ftypes start end max_row_idx (map (\<lambda>l. fst (snd l)) locals)
                   (map (\<lambda>_. init_cumulative T ftypes start end max_row_idx) ranks);
               cumulative_mask_recvs =
                 (if \<not> skipdropna
                  then exscan_mask max_row_idx n_oper (map (\<lambda>l. snd (snd l)) locals)
                  else map (\<lambda>_. []) ranks)
           in map (\<lambda>r. final_phase T ftypes start end skipdropna (ranks ! r) (fst (locals ! r))
                         (cumulative_recvs ! r) (cumulative_mask_recvs ! r))
                [0..<length ranks])"

text \<open>
  \<^verbatim>\<open>int64_t\<close> as element type, and two processes holding three rows each of a column with
  two groups: process 0 has a null in group 1, process 1 has a row without a key.
\<close>

definition T_int64_arith :: "int T_arith" where
  "T_int64_arith = \<lparr>T_cast = wrap_signed 64,
     T_limits_min = - 9223372036854775808, T_limits_max = 9223372036854775807,
     T_add = (\<lambda>a b. wrap_signed 64 (a + b)), T_mul = (\<lambda>a b. wrap_signed 64 (a * b)),
     T_std_max = max, T_std_min = min\<rparr>"

definition int_column :: "int list \<Rightarrow> bool list \<Rightarrow> int typed_array" where
  "int_column xs bs = \<lparr>arr_type = NULLABLE_INT_BOOL, dtype = INT64, arr_length = length xs,
     num_categories = 0, elems = xs, null_bits = bs\<rparr>"

definition cat_codes :: "nat \<Rightarrow> int list \<Rightarrow> int typed_array" where
  "cat_codes n xs = \<lparr>arr_type = CATEGORICAL, dtype = INT32, arr_length = length xs,
     num_categories = n, elems = xs, null_bits = []\<rparr>"

definition example_null_ranks :: "int exscan_rank list" where
  "example_null_ranks =
     [\<lparr>cat_column = cat_codes 2 [0, 1, 0], in_col = int_column [1, 5, 7] [True, False, True],
       out_arrs = [int_column [0, 0, 0] [True, True, True]]\<rparr>,
      \<lparr>cat_column = cat_codes 2 [0, 1, - 1], in_col = int_column [2, 3, 4] [True, True, True],
       out_arrs = [int_column [0, 0, 0] [True, True, True]]\<rparr>]"

text \<open>
  A null of group \<open>g\<close> among the first \<open>n\<close> rows of a process, and among all rows of the
  processes below rank \<open>r\<close>. The inputs the function expects: every key code is
  \<open>-1\<close> or a category index, all processes agree on the number of categories, and the
  output columns \<open>start .. end - 1\<close> exist and have room for the rows.
\<close>

definition null_seen :: "int typed_array \<Rightarrow> 'a typed_array \<Rightarrow> int \<Rightarrow> nat \<Rightarrow> bool" where
  "null_seen cat in_column g n =
     list_ex (\<lambda>i. elems cat ! i = g \<and> \<not> null_bits in_column ! i) [0..<n]"

definition codes_ok :: "int typed_array \<Rightarrow> nat \<Rightarrow> nat \<Rightarrow> bool" where
  "codes_ok cat max_row_idx n =
     list_all (\<lambda>i. elems cat ! i = - 1
                   \<or> (0 \<le> elems cat ! i \<and> nat (elems cat ! i) < max_row_idx)) [0..<n]"

definition rank_ok :: "nat \<Rightarrow> nat \<Rightarrow> nat \<Rightarrow> 'a exscan_rank \<Rightarrow> bool" where
  "rank_ok start end max_row_idx rank \<longleftrightarrow>
     num_categories (cat_column rank) = max_row_idx
     \<and> codes_ok (cat_column rank) max_row_idx (arr_length (in_col rank))
     \<and> list_all (\<lambda>j. j < length (out_arrs rank)
                      \<and> arr_length (in_col rank) \<le> length (null_bits (out_arrs rank ! j)))
          [start..<end]"

definition exscan_inputs_ok :: "nat \<Rightarrow> nat \<Rightarrow> 'a exscan_rank list \<Rightarrow> bool" where
  "exscan_inputs_ok start end ranks \<longleftrightarrow>
     start \<le> end
     \<and> list_all (rank_ok start end (num_categories (cat_column (hd ranks)))) ranks"

definition null_seen_below :: "'a exscan_rank list \<Rightarrow> nat \<Rightarrow> int \<Rightarrow> bool" where
  "null_seen_below ranks r g =
     list_ex (\<lambda>r'. null_seen (cat_column (ranks ! r')) (in_col (ranks ! r')) g
                     (arr_length (in_col (ranks ! r')))) [0..<r]"

section \<open>Join operator of the pipeline\<close>

text \<open>
  \<^verbatim>\<open>PhysicalJoin\<close> of \<^verbatim>\<open>bodo/pandas/physical/join.h\<close>. What the operator answers to a batch is
  an \<^verbatim>\<open>OperatorResult\<close>. Of the join state the two entry points read the kind of join, the
  shuffle states of the build and of the probe side and the output buffer. A shuffle state
  counts the rows waiting in its buffers for their owners; the output buffer counts the
  rows produced and not yet handed out.
\<close>

datatype OperatorResult = NEED_MORE_INPUT | HAVE_MORE_OUTPUT | FINISHED

record JoinShuffleState =
  pending_rows :: nat
  shuffle_threshold :: nat

record ChunkedTableBuilder =
  total_remaining :: nat
  active_chunk_capacity :: nat

record JoinState =
  IsNestedLoopJoin :: bool
  own_rank :: nat
  build_table_rows :: nat
  build_shuffle_state :: JoinShuffleState
  probe_shuffle_state :: JoinShuffleState
  output_buffer :: ChunkedTableBuilder

text \<open>
  A batch lists, for each of its rows, the rank that owns the row under the partition
  assignment. What the rest of the process group contributes to one call: whether the
  exchange can take the rows this process wants to send, how many output rows the probe of
  the call finds, and, for each peer, whether that peer has no pending input and no
  pending shuffle rows.
\<close>

type_synonym join_batch = "nat list"

record process_group =
  can_send :: bool
  probe_matches :: nat
  peers_done :: "bool list"

text \<open>
  Modelled from the spec: \<^verbatim>\<open>ShuffleState::BuffersFull\<close> and the buffering of rows for the
  shuffle exchange, which are not part of the sources. Rows owned by other processes
  accumulate in the shuffle buffers; a shuffle is triggered by the row threshold or by the
  final local batch, and clears the buffers when the exchange takes place.
\<close>

definition BuffersFull :: "JoinShuffleState \<Rightarrow> bool" where
  "BuffersFull s \<longleftrightarrow> shuffle_threshold s \<le> pending_rows s"

definition shuffle_rows ::
  "nat \<Rightarrow> process_group \<Rightarrow> JoinShuffleState \<Rightarrow> join_batch \<Rightarrow> bool \<Rightarrow> JoinShuffleState" where
  "shuffle_rows me grp s input_batch local_is_last =
     (let pending = pending_rows s + length (filter (\<lambda>owner. owner \<noteq> me) input_batch);
          trigger = (local_is_last \<or> shuffle_threshold s \<le> pending)
      in s\<lparr>pending_rows := (if trigger \<and> can_send grp then 0 else pending)\<rparr>)"

text \<open>
  Modelled from the spec: the collective agreement on termination, which the absent
  \<^verbatim>\<open>join_build_consume_batch\<close>, \<^verbatim>\<open>join_probe_consume_batch\<close> and the two nested loop
  functions of the signature \<^verbatim>\<open>join.h\<close> calls return as their result. A process that has
  run out of local input cannot declare itself finished until the process group agrees
  that no peer still has pending input or pending shuffle rows.
\<close>

definition sync_is_last :: "process_group \<Rightarrow> bool \<Rightarrow> bool" where
  "sync_is_last grp local_done \<longleftrightarrow> local_done \<and> list_all (\<lambda>flag. flag) (peers_done grp)"

definition join_build_consume_batch ::
  "process_group \<Rightarrow> JoinState \<Rightarrow> join_batch \<Rightarrow> bool \<Rightarrow> bool \<times> JoinState" where
  "join_build_consume_batch grp join_state input_batch local_is_last =
     (let sh = shuffle_rows (own_rank join_state) grp (build_shuffle_state join_state)
                 input_batch local_is_last;
          kept = length (filter (\<lambda>owner. owner = own_rank join_state) input_batch)
      in (sync_is_last grp (local_is_last \<and> pending_rows sh = 0),
          join_state\<lparr>build_table_rows := build_table_rows join_state + kept,
                      build_shuffle_state := sh\<rparr>))"

definition nested_loop_join_build_consume_batch ::
  "process_group \<Rightarrow> JoinState \<Rightarrow> join_batch \<Rightarrow> bool \<Rightarrow> bool \<times> JoinState" where
  "nested_loop_join_build_consume_batch grp join_state input_batch local_is_last =
     (sync_is_last grp local_is_last,
      join_state\<lparr>build_table_rows := build_table_rows join_state + length input_batch\<rparr>)"

definition join_probe_consume_batch ::
  "process_group \<Rightarrow> JoinState \<Rightarrow> join_batch \<Rightarrow> bool \<Rightarrow> bool \<times> JoinState" where
  "join_probe_consume_batch grp join_state input_batch is_last =
     (let sh = shuffle_rows (own_rank join_state) grp (probe_shuffle_state join_state)
                 input_batch is_last;
          out = output_buffer join_state
      in (sync_is_last grp (is_last \<and> pending_rows sh = 0),
          join_state\<lparr>probe_shuffle_state := sh,
                      output_buffer :=
                        out\<lparr>total_remaining := total_remaining out + probe_matches grp\<rparr>\<rparr>))"

definition nested_loop_join_probe_consume_batch ::
  "process_group \<Rightarrow> JoinState \<Rightarrow> join_batch \<Rightarrow> bool \<Rightarrow> bool \<times> JoinState" where
  "nested_loop_join_probe_consume_batch grp join_state input_batch is_last =
     (let out = output_buffer join_state
      in (sync_is_last grp is_last,
          join_state\<lparr>output_buffer :=
                        out\<lparr>total_remaining := total_remaining out + probe_matches grp\<rparr>\<rparr>))"

text \<open>
  Modelled from the spec: \<^verbatim>\<open>ChunkedTableBuilder::PopChunk\<close>, not part of the sources. The
  buffer hands out a chunk of at most its chunk capacity once a full chunk is ready, or
  whatever is left when the return is forced. The chunk is given by its number of rows.
\<close>

definition PopChunk :: "ChunkedTableBuilder \<Rightarrow> bool \<Rightarrow> nat \<times> ChunkedTableBuilder" where
  "PopChunk buf force_return =
     (let chunk_size =
            (if active_chunk_capacity buf \<le> total_remaining buf \<or> force_return
             then min (total_remaining buf) (active_chunk_capacity buf) else 0)
      in (chunk_size, buf\<lparr>total_remaining := total_remaining buf - chunk_size\<rparr>))"

text \<open>
  \<^verbatim>\<open>PhysicalJoin::ConsumeBatch\<close> (lines 319-350) and \<^verbatim>\<open>PhysicalJoin::ProcessBatch\<close> (lines
  356-454), returning the result and the join state they leave. The sixteen
  \<^verbatim>\<open>CONSUME_PROBE_BATCH\<close> instances select the template instance of
  \<^verbatim>\<open>join_probe_consume_batch\<close> by four flags and make the same call.
\<close>

definition ConsumeBatch ::
  "process_group \<Rightarrow> JoinState \<Rightarrow> join_batch \<Rightarrow> OperatorResult \<Rightarrow> OperatorResult \<times> JoinState" where
  "ConsumeBatch grp join_state input_batch prev_op_result =
     (let local_is_last = (prev_op_result = FINISHED)
      in if IsNestedLoopJoin join_state
         then
           (case nested_loop_join_build_consume_batch grp join_state input_batch local_is_last of
              (global_is_last, st) \<Rightarrow>
                (if global_is_last then FINISHED else NEED_MORE_INPUT, st))
         else
           (case join_build_consume_batch grp join_state input_batch local_is_last of
              (global_is_last, st) \<Rightarrow>
                if global_is_last then (FINISHED, st)
                else (if BuffersFull (build_shuffle_state st)
                      then HAVE_MORE_OUTPUT else NEED_MORE_INPUT, st)))"

definition ProcessBatch ::
  "process_group \<Rightarrow> JoinState \<Rightarrow> join_batch \<Rightarrow> OperatorResult
     \<Rightarrow> (nat \<times> OperatorResult) \<times> JoinState" where
  "ProcessBatch grp join_state input_batch prev_op_result =
     (let is_last0 = (prev_op_result = FINISHED);
          request_input0 = True;
          (is_last1, st1, request_input1) =
            (if IsNestedLoopJoin join_state
             then
               (case nested_loop_join_probe_consume_batch grp join_state input_batch is_last0 of
                  (is_last, st) \<Rightarrow> (is_last, st, request_input0))
             else
               (case join_probe_consume_batch grp join_state input_batch is_last0 of
                  (is_last, st) \<Rightarrow>
                    (is_last, st,
                     if BuffersFull (probe_shuffle_state st) then False else request_input0)));
          request_input =
            (if total_remaining (output_buffer st1)
                  > 2 * active_chunk_capacity (output_buffer st1)
             then False else request_input1);
          (out_table, buf) = PopChunk (output_buffer st1) is_last1;
          st2 = st1\<lparr>output_buffer := buf\<rparr>;
          is_last = (is_last1 \<and> total_remaining (output_buffer st2) = 0)
      in ((out_table,
           if is_last then FINISHED
           else if request_input then NEED_MORE_INPUT else HAVE_MORE_OUTPUT), st2))"

text \<open>
  A sequence of calls of one entry point on one operator: each call comes with its batch,
  the result of the upstream operator and what the process group contributes; the run
  lists, call by call, the result and the state the call leaves.
\<close>

fun run_ConsumeBatch ::
  "JoinState \<Rightarrow> (process_group \<times> join_batch \<times> OperatorResult) list
     \<Rightarrow> (OperatorResult \<times> JoinState) list" where
  "run_ConsumeBatch join_state [] = []"
| "run_ConsumeBatch join_state ((grp, input_batch, prev_op_result) # calls) =
     (case ConsumeBatch grp join_state input_batch prev_op_result of
        (res, st) \<Rightarrow> (res, st) # run_ConsumeBatch st calls)"

fun run_ProcessBatch ::
  "JoinState \<Rightarrow> (process_group \<times> join_batch \<times> OperatorResult) list
     \<Rightarrow> (OperatorResult \<times> JoinState) list" where
  "run_ProcessBatch join_state [] = []"
| "run_ProcessBatch join_state ((grp, input_batch, prev_op_result) # calls) =
     (case ProcessBatch grp join_state input_batch prev_op_result of
        ((out_table, res), st) \<Rightarrow> (res, st) # run_ProcessBatch st calls)"

definition example_join_state :: JoinState where
  "example_join_state =
     \<lparr>IsNestedLoopJoin = False, own_rank = 0, build_table_rows = 0,
      build_shuffle_state = \<lparr>pending_rows = 0, shuffle_threshold = 4\<rparr>,
      probe_shuffle_state = \<lparr>pending_rows = 0, shuffle_threshold = 4\<rparr>,
      output_buffer = \<lparr>total_remaining = 0, active_chunk_capacity = 2\<rparr>\<rparr>"

definition example_calls :: "(process_group \<times> join_batch \<times> OperatorResult) list" where
  "example_calls =
     [(\<lparr>can_send = True, probe_matches = 3, peers_done = [False]\<rparr>, [0, 1, 0], NEED_MORE_INPUT),
      (\<lparr>can_send = True, probe_matches = 0, peers_done = [False]\<rparr>, [], FINISHED),
      (\<lparr>can_send = True, probe_matches = 0, peers_done = [True]\<rparr>, [], FINISHED)]"

section \<open>Streaming groupby: group ids across a shuffle\<close>

text \<open>
  \<^verbatim>\<open>local_grp_info.row_to_group\<close> and \<^verbatim>\<open>shuffle_grp_info.row_to_group\<close> as the loop over the
  rows in \<^verbatim>\<open>groupby_build_consume_batch\<close> (lines 265-278) leaves them: the group id of
  each row of the update table in the table the row is sent to, and \<open>-1\<close> in the other.
\<close>

definition batch_row_to_group ::
  "'a groupby_env \<Rightarrow> 'a GroupbyState \<Rightarrow> 'a row list \<Rightarrow> int list \<times> int list" where
  "batch_row_to_group env groupby_state0 in_table0 =
     (let in_tbl = get_update_table groupby_state0 in_table0;
          keys = n_keys groupby_state0;
          batch_hashes_groupby = hash_keys_table (hash_keys_groupby env) in_tbl keys;
          batch_hashes_partition = hash_keys_table (hash_keys_partition env) in_tbl keys;
          st1 = groupby_state0\<lparr>in_table := in_tbl, in_table_hashes := batch_hashes_groupby\<rparr>
      in case consume_rows env in_tbl batch_hashes_groupby batch_hashes_partition
                (st1, replicate (length in_tbl) (- 1), replicate (length in_tbl) (- 1)) of
           (st2, local_row_to_group, shuffle_row_to_group) \<Rightarrow>
             (local_row_to_group, shuffle_row_to_group))"

text \<open>
  Rank 0 of two processes. The keys B and C belong to rank 1, so their rows go to the
  shuffle table; their group hashes differ. The shuffle takes place on the first
  iteration and on the last batch, and rank 0 receives no row from it.
  The combine step of a row whose group id is past the end of the table writes outside
  the rows of the table; the model leaves the table as it is.
\<close>

definition two_rank_env :: "string groupby_env" where
  "two_rank_env =
     \<lparr>n_pes = 2, myrank = 0,
      hash_keys_groupby = (\<lambda>k. if k = [Some ''B''] then 1 else 2),
      hash_keys_partition = (\<lambda>_. 1), hash_to_rank = (\<lambda>h n. unat h mod n),
      shuffle_this_iter = (\<lambda>par is_last tbl iter. par \<and> (is_last \<or> iter = 0)),
      shuffle_table_kernel = (\<lambda>tbl. []), uninitialized = (\<lambda>_. 0)\<rparr>"

definition batch_B :: "string row list" where
  "batch_B = [([Some ''B''], [1])]"

definition batch_C :: "string row list" where
  "batch_C = [([Some ''C''], [7])]"

definition parallel_state :: "string GroupbyState" where
  "parallel_state = GroupbyState_init 1 True [1]"

definition after_batch_B :: "string GroupbyState" where
  "after_batch_B = groupby_build_consume_batch two_rank_env parallel_state batch_B False"

definition after_batch_C :: "string GroupbyState" where
  "after_batch_C = groupby_build_consume_batch two_rank_env after_batch_B batch_C False"

section \<open>Verified properties\<close>

subsection \<open>Block ids\<close>

lemma counter_after_calls:
  "block_id_counter (after_calls n sm) = block_id_counter sm + of_nat n"
  by (induction n arbitrary: sm) (simp_all add: GetNewBlockID_def)

lemma nth_block_id_of_nat: "nth_block_id n = of_nat n"
  by (simp add: nth_block_id_def GetNewBlockID_def counter_after_calls StorageManager_init_def)

text \<open>
  C9, as stated, fails: the counter is a \<^verbatim>\<open>uint64_t\<close>, so call number \<open>2^64\<close> of one
  manager instance returns block id 0 again, the id of its very first call.
\<close>

theorem block_id_reused_after_wrap:
  "nth_block_id (2 ^ 64) = nth_block_id 0"
  by (simp add: nth_block_id_of_nat)

text \<open>
  C9 (amended): within the first \<open>2^64\<close> calls of one manager instance the ids start at 0,
  call number \<open>n\<close> returns \<open>n\<close>, and they are strictly increasing, hence never reused.
\<close>

theorem block_ids_increasing:
  assumes "i < j" and "j < 2 ^ 64"
  shows "nth_block_id 0 = 0 \<and> unat (nth_block_id j) = j
         \<and> nth_block_id i < nth_block_id j \<and> nth_block_id i \<noteq> nth_block_id j"
proof -
  have j: "unat (of_nat j :: 64 word) = j"
    using assms(2) by (simp add: unat_of_nat)
  have i: "unat (of_nat i :: 64 word) = i"
    using assms by (simp add: unat_of_nat)
  have lt: "(of_nat i :: 64 word) < of_nat j"
    using assms i j by (simp add: word_less_nat_alt)
  show ?thesis
    using i j lt by (simp add: nth_block_id_of_nat)
qed

theorem block_ids_increasing_witness:
  "nth_block_id 0 = 0 \<and> unat (nth_block_id 5) = 5
   \<and> nth_block_id 2 < nth_block_id 5 \<and> nth_block_id 2 \<noteq> nth_block_id 5"
  using block_ids_increasing [of 2 5] by simp

subsection \<open>Output of the streaming groupby\<close>

text \<open>
  C10: every call to \<^verbatim>\<open>groupby_produce_output_batch\<close> returns the whole data table of
  the local build buffer together with a last-batch flag that is true.
\<close>

theorem produce_output_whole_table_is_last:
  "groupby_produce_output_batch groupby_state =
     (data_table (local_table_buffer groupby_state), True)"
  by (simp add: groupby_produce_output_batch_def)

subsection \<open>Bit utilities\<close>

lemma GetBit_bit: "GetBit bits i = bit (bits ! (i div 8)) (i mod 8)"
  apply (simp add: GetBit_def)
  by (metis and.right_neutral bit_0 bit_iff_odd_drop_bit even_iff_mod_2_eq_zero one_and_eq odd_iff_mod_2_eq_one and_one_eq)

lemma bit_SetBitTo_byte:
  "k < 8 \<Longrightarrow> bit (SetBitTo_byte b k v) n \<longleftrightarrow> (if n = k then v \<and> n < 8 else bit b n)"
  by (auto simp add: SetBitTo_byte_def bit_simps dest: bit_imp_le_length)

lemma length_SetBitTo [simp]: "length (SetBitTo bits i v) = length bits"
  by (simp add: SetBitTo_def)

lemma GetBit_SetBitTo:
  assumes "p div 8 < length bits"
  shows "GetBit (SetBitTo bits p v) j = (if j = p then v else GetBit bits j)"
proof (cases "j div 8 = p div 8")
  case True
  have "j = p \<longleftrightarrow> j mod 8 = p mod 8"
    using True by (metis div_mult_mod_eq)
  then show ?thesis
    using True assms by (simp add: GetBit_bit SetBitTo_def bit_SetBitTo_byte)
next
  case False
  then have "j \<noteq> p" by auto
  then show ?thesis
    using False by (simp add: GetBit_bit SetBitTo_def)
qed

lemma and_7_nat: "(n::nat) AND 7 = n mod 8"
proof -
  have "n AND mask 3 = n mod 2 ^ 3"
    by (simp only: take_bit_eq_mod flip: take_bit_eq_mask)
  then show ?thesis by (simp add: mask_eq_exp_minus_1)
qed

lemma BytesForBits_div: "BytesForBits n = (n + 7) div 8"
  by (simp add: BytesForBits_def drop_bit_eq_div)

lemma append_null_bits_Suc:
  "append_null_bits src (Suc n) st =
     (case append_null_bits src n st of
        (bm, len) \<Rightarrow> (SetBitTo bm len (GetBit src n), len + 1))"
  by (simp add: append_null_bits_def)

lemma append_null_bits_spec:
  assumes "(len + n + 7) div 8 \<le> length bm"
  shows "snd (append_null_bits src n (bm, len)) = len + n
       \<and> length (fst (append_null_bits src n (bm, len))) = length bm
       \<and> (\<forall>j. GetBit (fst (append_null_bits src n (bm, len))) j =
               (if len \<le> j \<and> j < len + n then GetBit src (j - len) else GetBit bm j))"
  using assms
proof (induction n)
  case 0
  then show ?case by (auto simp add: append_null_bits_def)
next
  case (Suc n)
  obtain bm' len' where r: "append_null_bits src n (bm, len) = (bm', len')"
    by (cases "append_null_bits src n (bm, len)")
  have pre: "(len + n + 7) div 8 \<le> length bm"
    using Suc.prems by (simp add: div_le_mono order_trans [OF _ Suc.prems])
  have ih: "len' = len + n" "length bm' = length bm"
    "\<And>j. GetBit bm' j = (if len \<le> j \<and> j < len + n then GetBit src (j - len) else GetBit bm j)"
    using Suc.IH [OF pre] r by simp_all
  have inr: "len' div 8 < length bm'"
    using Suc.prems ih(1,2) by (simp add: less_le_trans [OF _ Suc.prems]) 
  show ?case
    using inr ih by (auto simp add: append_null_bits_Suc r GetBit_SetBitTo)
qed


lemma copy_bitmap_spec:
  assumes al: "sz mod 8 = 0"
    and dst: "(sz + len + 7) div 8 \<le> length bm"
    and src: "(len + 7) div 8 \<le> length src"
    and j: "j < sz + len"
  shows "GetBit (copy_bitmap bm (drop_bit 3 sz) src len) j =
           (if sz \<le> j then GetBit src (j - sz) else GetBit bm j)"
proof -
  define off where "off = sz div 8"
  define n where "n = (len + 7) div 8"
  have sz: "sz = 8 * off"
    using al by (auto simp: off_def)
  have off_le: "off \<le> length bm"
    using dst sz by linarith
  have cb: "copy_bitmap bm (drop_bit 3 sz) src len = take off bm @ take n src @ drop (off + n) bm"
    by (simp add: copy_bitmap_def memcpy_def drop_bit_eq_div off_def n_def Let_def)
  show ?thesis
  proof (cases "sz \<le> j")
    case False
    then have "j div 8 < off" using sz by linarith
    then show ?thesis
      using False off_le by (simp add: cb GetBit_bit nth_append)
  next
    case True
    have jj: "j = (j - sz) + off * 8"
      using True sz by simp
    have "((j - sz) + off * 8) div 8 = (j - sz) div 8 + off"
      by simp
    then have d: "j div 8 = off + (j - sz) div 8"
      using jj by simp
    have "((j - sz) + off * 8) mod 8 = (j - sz) mod 8"
      by simp
    then have m: "j mod 8 = (j - sz) mod 8"
      using jj by simp
    have lt: "(j - sz) div 8 < n"
      using j True unfolding n_def by linarith
    then have "(j - sz) div 8 < length (take n src)"
      using src unfolding n_def by simp
    then show ?thesis
      using True off_le lt by (simp add: cb GetBit_bit nth_append d m)
  qed
qed

subsection \<open>The byte-aligned fast path of the nullable batch append\<close>

text \<open>
  C8: when the size of the destination buffer is a multiple of 8, the nullable fixed-width
  batch append takes the whole-byte branch, and its outcome is the outcome of the
  bit-by-bit branch on the same input: both fail with the same error, or both succeed with
  the same values, length and per-row null bits.
\<close>

theorem aligned_fast_path_equivalent:
  assumes aligned: "arr_length data_array mod 8 = 0"
    and src: "BytesForBits (arr_length in_arr) \<le> length (null_bitmask in_arr)"
  shows "UnsafeAppendBatch_NULLABLE status_ToString numpy_item_size data_array in_arr =
           UnsafeAppendBatch_NULLABLE_path status_ToString True numpy_item_size data_array in_arr
       \<and> (case (UnsafeAppendBatch_NULLABLE_path status_ToString True numpy_item_size data_array in_arr,
                 UnsafeAppendBatch_NULLABLE_path status_ToString False numpy_item_size data_array in_arr) of
            (Inr fast, Inr general) \<Rightarrow> same_logical_contents fast general
          | (Inl e, Inl e') \<Rightarrow> e = e'
          | _ \<Rightarrow> False)"
proof -
  let ?sz = "arr_length data_array"
  let ?len = "arr_length in_arr"
  let ?bm = "null_bitmask data_array"
  have path: "UnsafeAppendBatch_NULLABLE status_ToString numpy_item_size data_array in_arr =
           UnsafeAppendBatch_NULLABLE_path status_ToString True numpy_item_size data_array in_arr"
    using aligned by (simp add: UnsafeAppendBatch_NULLABLE_def and_7_nat)
  show ?thesis
  proof (cases "SetSize_ok (data1 data_array) ((?sz + ?len) * numpy_item_size (dtype in_arr))
                \<and> SetSize_ok ?bm (BytesForBits (?sz + ?len))")
    case False
    then show ?thesis
      using path by (auto simp add: UnsafeAppendBatch_NULLABLE_path_def Let_def split: prod.splits)
  next
    case True
    then have dst: "(?sz + ?len + 7) div 8 \<le> length ?bm"
      by (simp add: SetSize_ok_def BytesForBits_div)
    have src': "(?len + 7) div 8 \<le> length (null_bitmask in_arr)"
      using src by (simp add: BytesForBits_div)
    obtain out len' where slow:
      "append_null_bits (null_bitmask in_arr) ?len (?bm, ?sz) = (out, len')"
      by (cases "append_null_bits (null_bitmask in_arr) ?len (?bm, ?sz)")
    have s1: "len' = ?sz + ?len"
      and s3: "\<And>j. GetBit out j =
               (if ?sz \<le> j \<and> j < ?sz + ?len then GetBit (null_bitmask in_arr) (j - ?sz)
                else GetBit ?bm j)"
      using append_null_bits_spec [OF dst, of "null_bitmask in_arr"] slow by simp_all
    have bits: "\<forall>j < ?sz + ?len.
        GetBit (copy_bitmap ?bm (drop_bit 3 ?sz) (null_bitmask in_arr) ?len) j = GetBit out j"
      using copy_bitmap_spec [OF aligned dst src'] s3 by auto
    show ?thesis
      using path True slow s1 bits
      by (simp add: UnsafeAppendBatch_NULLABLE_path_def Let_def same_logical_contents_def)
  qed
qed

theorem aligned_fast_path_equivalent_witness:
  "arr_length example_buffer mod 8 = 0
   \<and> BytesForBits (arr_length example_batch) \<le> length (null_bitmask example_batch)
   \<and> UnsafeAppendBatch_NULLABLE (\<lambda>_ _. ''status text'') (\<lambda>_. 1) example_buffer example_batch =
       UnsafeAppendBatch_NULLABLE_path (\<lambda>_ _. ''status text'') True (\<lambda>_. 1) example_buffer example_batch
   \<and> (case (UnsafeAppendBatch_NULLABLE_path (\<lambda>_ _. ''status text'') True (\<lambda>_. 1) example_buffer example_batch,
             UnsafeAppendBatch_NULLABLE_path (\<lambda>_ _. ''status text'') False (\<lambda>_. 1) example_buffer example_batch) of
        (Inr fast, Inr general) \<Rightarrow> same_logical_contents fast general
      | (Inl e, Inl e') \<Rightarrow> e = e'
      | _ \<Rightarrow> False)"
proof -
  have h1: "arr_length example_buffer mod 8 = 0"
    by (simp add: example_buffer_def)
  have h2: "BytesForBits (arr_length example_batch) \<le> length (null_bitmask example_batch)"
    by (simp add: example_batch_def BytesForBits_div)
  show ?thesis
    using h1 h2 aligned_fast_path_equivalent
      [OF h1 h2, of "\<lambda>_ _. ''status text''" "\<lambda>_. 1"] by blast
qed


subsection \<open>Dictionary appends\<close>

text \<open>
  C4: appending a dictionary-encoded array whose dictionary does not match the buffer's
  dictionary throws a runtime error before anything is written, in the two batch appends
  and in the single-row append; the buffer is left as it was.
\<close>

theorem dict_append_not_unified_raises:
  assumes "\<not> is_matching (dictionary data_array) (dictionary in_arr)"
  shows "UnsafeAppendBatch_DICT_rows status_ToString is_matching data_array in_arr append_rows append_rows_sum =
           (Some (runtime_error ''dictionary not unified in UnsafeAppendBatch''), data_array)
       \<and> UnsafeAppendBatch_DICT status_ToString is_matching numpy_item_size data_array in_arr =
           (Some (runtime_error ''dictionary not unified in UnsafeAppendBatch''), data_array)
       \<and> UnsafeAppendRow_DICT status_ToString is_matching numpy_item_size data_array in_arr row_ind =
           (Some (runtime_error ''dictionary not unified in AppendRow''), data_array)"
  using assms
  by (simp add: UnsafeAppendBatch_DICT_rows_def UnsafeAppendBatch_DICT_def
      UnsafeAppendRow_DICT_def)

theorem dict_append_not_unified_raises_witness:
  "\<not> is_matching_dictionary (dictionary example_dict_buffer) (dictionary example_dict_batch)
   \<and> UnsafeAppendBatch_DICT_rows (\<lambda>_ _. ''status text'') is_matching_dictionary example_dict_buffer example_dict_batch
        [True] 1 =
       (Some (runtime_error ''dictionary not unified in UnsafeAppendBatch''), example_dict_buffer)
   \<and> UnsafeAppendBatch_DICT (\<lambda>_ _. ''status text'') is_matching_dictionary (\<lambda>_. 4) example_dict_buffer
        example_dict_batch =
       (Some (runtime_error ''dictionary not unified in UnsafeAppendBatch''), example_dict_buffer)
   \<and> UnsafeAppendRow_DICT (\<lambda>_ _. ''status text'') is_matching_dictionary (\<lambda>_. 4) example_dict_buffer
        example_dict_batch 0 =
       (Some (runtime_error ''dictionary not unified in AppendRow''), example_dict_buffer)"
proof -
  have h: "\<not> is_matching_dictionary (dictionary example_dict_buffer)
               (dictionary example_dict_batch)"
    by (simp add: is_matching_dictionary_def example_dict_buffer_def example_dict_batch_def)
  show ?thesis
    using h dict_append_not_unified_raises
      [of is_matching_dictionary example_dict_buffer example_dict_batch
          "\<lambda>_ _. ''status text''" "[True]" 1 "\<lambda>_. 4" 0]
    by blast
qed

subsection \<open>Strategy selection\<close>

lemma scan_ftypes:
  "fold (\<lambda>i (has_non_cumulative_op, has_cumulative_op).
           let ftype = ftypes ! i
           in if ftype = cumsum \<or> ftype = cummin \<or> ftype = cumprod \<or> ftype = cummax
              then (has_non_cumulative_op, True)
              else (True, has_cumulative_op)) [0..<n] (False, False)
   = ((\<exists>i<n. \<not> is_cumulative (ftypes ! i)), (\<exists>i<n. is_cumulative (ftypes ! i)))"
  by (induction n) (auto simp add: is_cumulative_def less_Suc_eq Let_def)

lemma scan_columns:
  "fold (\<lambda>i has_non_arithmetic_type.
           let oper_col = in_tbl ! i
           in if arr_type oper_col \<noteq> NUMPY \<and> arr_type oper_col \<noteq> NULLABLE_INT_BOOL
              then True else has_non_arithmetic_type) [a..<b] False
   = (\<exists>i. a \<le> i \<and> i < b \<and> \<not> is_numeric_column (in_tbl ! i))"
proof (induction b)
  case 0
  then show ?case by simp
next
  case (Suc b)
  then show ?case
    by (cases "a \<le> b") (auto simp add: is_numeric_column_def less_Suc_eq Let_def)
qed

text \<open>
  C1, as stated, fails: with one key column and no function requested, no requested
  function is non-cumulative and no operand column is non-numeric, so the rule of the spec
  makes the query eligible; \<^verbatim>\<open>determine_groupby_strategy\<close> returns 0, the hash scheme.
\<close>

theorem exscan_eligibility_no_function_counterexample:
  "determine_groupby_strategy 1000 [example_key_col] 1 [] [0] False = Some 0
   \<and> spec_exscan_eligible 1000 [] ([] :: array_header list) 1"
  by (simp add: determine_groupby_strategy_def spec_exscan_eligible_def)

text \<open>
  C1 (amended): \<^verbatim>\<open>determine_groupby_strategy\<close> returns 0 when no function is requested,
  when a requested function is not cumulative, when an operand column is neither
  \<^verbatim>\<open>NUMPY\<close> nor \<^verbatim>\<open>NULLABLE_INT_BOOL\<close>, or when the single key column is categorical with
  more categories than the ceiling; it returns 1 for a single categorical key within the
  ceiling and 2 otherwise. For result 2 the ceiling is applied by
  \<^verbatim>\<open>compute_categorical_index\<close>, which returns no index exactly when the global number of
  distinct key rows exceeds it.
\<close>

theorem determine_groupby_strategy_rule:
  assumes "num_keys + (if input_has_index then 1 else 0) \<le> length in_tbl"
    and "n_cols = length in_tbl - num_keys - (if input_has_index then 1 else 0)"
    and "n_cols < length func_offsets"
    and "func_offsets ! n_cols \<le> int (length ftypes)"
    and "in_tbl \<noteq> []"
    and "n_funcs = nat (func_offsets ! n_cols)"
  shows "determine_groupby_strategy max_groups in_tbl num_keys ftypes func_offsets input_has_index =
      Some (if n_funcs = 0 \<or> (\<exists>i<n_funcs. \<not> is_cumulative (ftypes ! i)) then 0
            else if \<exists>i<n_cols. \<not> is_numeric_column (in_tbl ! (num_keys + i)) then 0
            else if num_keys > 1 \<or> arr_type (in_tbl ! 0) \<noteq> CATEGORICAL then 2
            else if num_categories (in_tbl ! 0) > max_groups then 0
            else 1)
    \<and> (compute_categorical_index max_groups is_parallel n_rows_of_rank my_rank = None \<longleftrightarrow>
         (if is_parallel then sum_list n_rows_of_rank else n_rows_of_rank ! my_rank) > max_groups)"
proof -
  let ?idx = "if input_has_index then 1 else (0::nat)"
  have cols: "(\<exists>i. num_keys \<le> i \<and> i < length in_tbl - ?idx \<and> \<not> is_numeric_column (in_tbl ! i))
      \<longleftrightarrow> (\<exists>i<n_cols. \<not> is_numeric_column (in_tbl ! (num_keys + i)))" (is "?L = ?R")
  proof
    assume ?L
    then obtain i where i: "num_keys \<le> i" "i < length in_tbl - ?idx"
      "\<not> is_numeric_column (in_tbl ! i)" by blast
    then have "i - num_keys < n_cols" "num_keys + (i - num_keys) = i"
      using assms(1,2) by auto
    then show ?R using i(3) by metis
  next
    assume ?R
    then obtain i where "i < n_cols" "\<not> is_numeric_column (in_tbl ! (num_keys + i))"
      by blast
    then show ?L
      using assms(1,2) by (intro exI [of _ "num_keys + i"]) auto
  qed
  have n_cols: "length in_tbl - num_keys - ?idx = n_cols"
    using assms(2) by simp
  have ok1: "\<not> (length in_tbl < num_keys + ?idx \<or> length func_offsets \<le> n_cols)"
    using assms(1,3) by auto
  have ok2: "\<not> int (length ftypes) < func_offsets ! n_cols"
    using assms(4) by simp
  have ok3: "length in_tbl \<noteq> 0"
    using assms(5) by simp
  have n_funcs: "nat (func_offsets ! n_cols) = n_funcs"
    using assms(6) by simp
  have unfolded: "determine_groupby_strategy max_groups in_tbl num_keys ftypes func_offsets
        input_has_index =
      (if \<exists>i<n_funcs. \<not> is_cumulative (ftypes ! i) then Some 0
       else if \<not> (\<exists>i<n_funcs. is_cumulative (ftypes ! i)) then Some 0
       else if \<exists>i<n_cols. \<not> is_numeric_column (in_tbl ! (num_keys + i)) then Some 0
       else if num_keys > 1 then Some 2
       else if arr_type (in_tbl ! 0) \<noteq> CATEGORICAL then Some 2
       else if num_categories (in_tbl ! 0) > max_groups then Some 0
       else Some 1)"
    unfolding determine_groupby_strategy_def Let_def n_cols n_funcs
      scan_ftypes [unfolded Let_def] scan_columns [unfolded Let_def] cols
    by (simp only: ok1 ok2 ok3 if_False prod.case)
  have strategy: "determine_groupby_strategy max_groups in_tbl num_keys ftypes func_offsets input_has_index =
      Some (if n_funcs = 0 \<or> (\<exists>i<n_funcs. \<not> is_cumulative (ftypes ! i)) then 0
            else if \<exists>i<n_cols. \<not> is_numeric_column (in_tbl ! (num_keys + i)) then 0
            else if num_keys > 1 \<or> arr_type (in_tbl ! 0) \<noteq> CATEGORICAL then 2
            else if num_categories (in_tbl ! 0) > max_groups then 0
            else 1)"
  proof (cases "n_funcs = 0")
    case True
    then show ?thesis unfolding unfolded by simp
  next
    case False
    then have "(\<exists>i<n_funcs. is_cumulative (ftypes ! i)) \<or> (\<exists>i<n_funcs. \<not> is_cumulative (ftypes ! i))"
      by auto
    then show ?thesis unfolding unfolded using False by auto
  qed
  have cat: "compute_categorical_index max_groups is_parallel n_rows_of_rank my_rank = None \<longleftrightarrow>
         (if is_parallel then sum_list n_rows_of_rank else n_rows_of_rank ! my_rank) > max_groups"
    by (simp add: compute_categorical_index_def Let_def)
  show ?thesis using strategy cat by blast
qed


theorem determine_groupby_strategy_rule_witness:
  "1 + (if False then 1 else 0) \<le> length [example_cat_key_col, example_data_col]
   \<and> (1::nat) = length [example_cat_key_col, example_data_col] - 1 - (if False then 1 else 0)
   \<and> 1 < length [0, 2 :: int]
   \<and> [0, 2] ! 1 \<le> int (length [cumsum, cummax])
   \<and> [example_cat_key_col, example_data_col] \<noteq> []
   \<and> (2::nat) = nat ([0, 2] ! 1)
   \<and> determine_groupby_strategy 1000 [example_cat_key_col, example_data_col] 1
         [cumsum, cummax] [0, 2] False = Some 1
   \<and> compute_categorical_index 1000 True [2, 1] 0 \<noteq> None"
proof -
  let ?tbl = "[example_cat_key_col, example_data_col]"
  have h1: "1 + (if False then 1 else 0) \<le> length ?tbl" by simp
  have h2: "(1::nat) = length ?tbl - 1 - (if False then 1 else 0)" by simp
  have h3: "1 < length [0, 2 :: int]" by simp
  have h4: "[0, 2] ! 1 \<le> int (length [cumsum, cummax])" by simp
  have h5: "?tbl \<noteq> []" by simp
  have h6: "(2::nat) = nat ([0, 2] ! 1)" by simp
  have cum: "is_cumulative ([cumsum, cummax] ! i)" if "i < 2" for i
  proof -
    from that have "i = 0 \<or> i = 1" by auto
    then show ?thesis by (auto simp add: is_cumulative_def)
  qed
  have funcs: "\<not> ((2::nat) = 0 \<or> (\<exists>i<2. \<not> is_cumulative ([cumsum, cummax] ! i)))"
    using cum by auto
  have cols: "\<not> (\<exists>i<1. \<not> is_numeric_column (?tbl ! (1 + i)))"
    by (simp add: is_numeric_column_def example_data_col_def)
  have key: "\<not> ((1::nat) > 1 \<or> arr_type (?tbl ! 0) \<noteq> CATEGORICAL)"
    by (simp add: example_cat_key_col_def)
  have cats: "\<not> num_categories (?tbl ! 0) > 1000"
    by (simp add: example_cat_key_col_def)
  have sum: "\<not> (if True then sum_list [2, 1] else [2, 1] ! 0) > (1000::nat)"
    by simp
  note rule = determine_groupby_strategy_rule [OF h1 h2 h3 h4 h5 h6, of 1000 True "[2, 1]" 0]
  have "determine_groupby_strategy 1000 ?tbl 1 [cumsum, cummax] [0, 2] False = Some 1"
    using rule funcs cols key cats by (simp only: if_False simp_thms)
  moreover have "compute_categorical_index 1000 True [2, 1] 0 \<noteq> None"
    using rule sum by blast
  ultimately show ?thesis
    using h1 h2 h3 h4 h5 h6 by blast
qed

subsection \<open>Identities of the cumulative functions and of the aggregates\<close>

lemma inner_fill_length:
  "length (fold (\<lambda>i xs. xs[i + off := v]) [0..<n] xs) = length xs"
  by (induction n) simp_all

lemma inner_fill_nth:
  "off + n \<le> length xs \<Longrightarrow>
   fold (\<lambda>i xs. xs[i + off := v]) [0..<n] xs ! p
     = (if off \<le> p \<and> p < off + n then v else xs ! p)"
proof (induction n)
  case 0
  then show ?case by auto
next
  case (Suc n)
  then have in_range: "n + off < length (fold (\<lambda>i xs. xs[i + off := v]) [0..<n] xs)"
    by (simp add: inner_fill_length)
  show ?case
    using Suc in_range by (auto simp add: nth_list_update)
qed

lemma init_loop_length:
  "length (fold (\<lambda>j cumulative.
             let ftype = ftypes ! j
             in fold (\<lambda>i_row cumulative.
                        cumulative[i_row + M * (j - start) := value_init T ftype])
                  [0..<M] cumulative) [start..<e] xs) = length xs"
  by (induction e) (simp_all add: inner_fill_length Let_def)

lemma slice_below:
  assumes "start \<le> j" "j < e" "g < (M::nat)"
  shows "g + M * (j - start) < M * (e - start)"
proof -
  have "Suc (j - start) \<le> e - start" using assms by simp
  then have "M * Suc (j - start) \<le> M * (e - start)" by (rule mult_le_mono2)
  then show ?thesis using assms(3) by simp
qed

lemma init_loop_nth:
  assumes "M * (e - start) \<le> length xs" "start \<le> j" "j < e" "g < M"
  shows "fold (\<lambda>j cumulative.
             let ftype = ftypes ! j
             in fold (\<lambda>i_row cumulative.
                        cumulative[i_row + M * (j - start) := value_init T ftype])
                  [0..<M] cumulative) [start..<e] xs ! (g + M * (j - start))
         = value_init T (ftypes ! j)"
  using assms
proof (induction e)
  case 0
  then show ?case by simp
next
  case (Suc e)
  let ?F = "\<lambda>j cumulative.
             let ftype = ftypes ! j
             in fold (\<lambda>i_row cumulative.
                        cumulative[i_row + M * (j - start) := value_init T ftype])
                  [0..<M] cumulative"
  have se: "start \<le> e" using Suc.prems by simp
  have len: "length (fold ?F [start..<e] xs) = length xs"
    by (rule init_loop_length)
  have "M * (e - start) + M = M * (Suc e - start)"
    using se by (simp add: Suc_diff_le)
  then have room: "M * (e - start) + M \<le> length (fold ?F [start..<e] xs)"
    using Suc.prems(1) len by simp
  have step: "fold ?F [start..<Suc e] xs ! p =
      (if M * (e - start) \<le> p \<and> p < M * (e - start) + M then value_init T (ftypes ! e)
       else fold ?F [start..<e] xs ! p)" for p
    using se inner_fill_nth [OF room, of "value_init T (ftypes ! e)" p]
    by (simp add: Let_def)
  show ?case
  proof (cases "j = e")
    case True
    then show ?thesis using step Suc.prems(4) by simp
  next
    case False
    then have je: "j < e" using Suc.prems(3) by simp
    have below: "g + M * (j - start) < M * (e - start)"
      by (rule slice_below [OF Suc.prems(2) je Suc.prems(4)])
    have small: "M * (e - start) \<le> length xs"
      using room len by simp
    show ?thesis
      using step below Suc.IH [OF small Suc.prems(2) je Suc.prems(4)] by simp
  qed
qed

lemma init_cumulative_slot:
  assumes "start \<le> j" "j < end" "g < max_row_idx"
  shows "init_cumulative T ftypes start end max_row_idx ! (g + max_row_idx * (j - start))
           = value_init T (ftypes ! j)"
  unfolding init_cumulative_def
  by (rule init_loop_nth) (use assms in simp_all)


lemmas T_defs = T_int8_def T_uint8_def T_int16_def T_uint16_def T_int32_def T_uint32_def
  T_int64_def T_uint64_def T_float_def T_double_def

lemmas dtype_value_defs = dtype_zero_def dtype_one_def dtype_min_value_def dtype_max_value_def
  is_float_dtype_def is_integer_dtype_def dtype_signed_def dtype_bits_def
  float_largest_finite_def

lemma exscan_dtype_cases:
  assumes "exscan_T_of_dtype d = Some T"
  shows "(d = INT8 \<and> T = T_int8) \<or> (d = UINT8 \<and> T = T_uint8) \<or> (d = INT16 \<and> T = T_int16)
       \<or> (d = UINT16 \<and> T = T_uint16) \<or> (d = INT32 \<and> T = T_int32)
       \<or> (d = UINT32 \<and> T = T_uint32) \<or> (d = INT64 \<and> T = T_int64)
       \<or> (d = UINT64 \<and> T = T_uint64) \<or> (d = FLOAT32 \<and> T = T_float)
       \<or> (d = FLOAT64 \<and> T = T_double)"
  using assms by (simp add: exscan_T_of_dtype_def split: if_splits)

lemma value_init_identities:
  assumes "exscan_T_of_dtype d = Some T"
  shows "value_init T cumsum = dtype_zero d \<and> value_init T cumprod = dtype_one d
       \<and> value_init T cummin = dtype_max_value d
       \<and> (is_integer_dtype d \<longrightarrow> value_init T cummax = dtype_min_value d)"
  using exscan_dtype_cases [OF assms]
  by (elim disjE conjE)
     (simp_all add: value_init_def T_defs dtype_value_defs wrap_signed_def wrap_unsigned_def)

lemma kernel_not_categorical:
  assumes "arr_type out_col \<noteq> CATEGORICAL"
  shows "\<exists>bits. aggfunc_output_initialize_kernel out_col ftype use_sql_rules =
     (let c = out_col\<lparr>null_bits := bits\<rparr>; n = arr_length out_col
      in if ftype = prod_f then initialize_prod c
         else if ftype = min_f then initialize_min c
         else if ftype = max_f then initialize_max c
         else if ftype = first_f \<or> ftype = last_f then initialize_first_last c
         else if ftype = min_row_number_filter then fill_data1 n (Bool_val False) c
         else fill_data1 (if dtype c = DECIMAL then 2 * n else n)
                (zero_bytes_value (dtype c)) c)"
proof (cases "arr_type out_col = NULLABLE_INT_BOOL")
  case True
  then show ?thesis
    using assms
    by (intro exI [of _ "fill (arr_length out_col)
          (if use_sql_rules then ftype = count_f
           else if ftype = min_f \<or> ftype = max_f \<or> ftype = first_f
                   \<or> ftype = last_f \<or> ftype = boolor_agg \<or> ftype = mean
                   \<or> ftype = var \<or> ftype = std \<or> ftype = median
           then False else True) (null_bits out_col)"])
       (simp add: aggfunc_output_initialize_kernel_def Let_def)
next
  case False
  show ?thesis
  proof (cases "arr_type out_col = STRING \<or> arr_type out_col = LIST_STRING")
    case True
    then show ?thesis
      using assms False
      by (intro exI [of _ "fill (arr_length out_col) False (null_bits out_col)"])
         (auto simp add: aggfunc_output_initialize_kernel_def Let_def)
  next
    case False2: False
    then show ?thesis
      using assms False
      by (intro exI [of _ "null_bits out_col"])
         (auto simp add: aggfunc_output_initialize_kernel_def Let_def)
  qed
qed

lemma aggregate_init_values:
  assumes T: "exscan_T_of_dtype (dtype out_col) = Some T"
    and nc: "arr_type out_col \<noteq> CATEGORICAL"
  shows "fst (aggfunc_output_initialize_kernel out_col prod_f use_sql_rules) = None
     \<and> elems (snd (aggfunc_output_initialize_kernel out_col prod_f use_sql_rules)) =
         fill (arr_length out_col) (dtype_one (dtype out_col)) (elems out_col)
     \<and> (is_integer_dtype (dtype out_col) \<longrightarrow>
          elems (snd (aggfunc_output_initialize_kernel out_col min_f use_sql_rules)) =
            fill (arr_length out_col) (dtype_max_value (dtype out_col)) (elems out_col)
        \<and> elems (snd (aggfunc_output_initialize_kernel out_col max_f use_sql_rules)) =
            fill (arr_length out_col) (dtype_min_value (dtype out_col)) (elems out_col))
     \<and> (is_float_dtype (dtype out_col) \<longrightarrow>
          elems (snd (aggfunc_output_initialize_kernel out_col min_f use_sql_rules)) =
            fill (arr_length out_col) Float_NaN (elems out_col)
        \<and> elems (snd (aggfunc_output_initialize_kernel out_col max_f use_sql_rules)) =
            fill (arr_length out_col) Float_NaN (elems out_col))"
proof -
  obtain b1 where k1: "aggfunc_output_initialize_kernel out_col prod_f use_sql_rules =
      initialize_prod (out_col\<lparr>null_bits := b1\<rparr>)"
    using kernel_not_categorical [OF nc, of prod_f use_sql_rules] by (auto simp: Let_def)
  obtain b2 where k2: "aggfunc_output_initialize_kernel out_col min_f use_sql_rules =
      initialize_min (out_col\<lparr>null_bits := b2\<rparr>)"
    using kernel_not_categorical [OF nc, of min_f use_sql_rules] by (auto simp: Let_def)
  obtain b3 where k3: "aggfunc_output_initialize_kernel out_col max_f use_sql_rules =
      initialize_max (out_col\<lparr>null_bits := b3\<rparr>)"
    using kernel_not_categorical [OF nc, of max_f use_sql_rules] by (auto simp: Let_def)
  show ?thesis
    unfolding k1 k2 k3
    using exscan_dtype_cases [OF T]
    by (elim disjE conjE)
       (simp_all add: initialize_prod_def initialize_min_def initialize_max_def
          fill_data1_def T_defs dtype_value_defs wrap_signed_def wrap_unsigned_def)
qed

text \<open>
  C3, as stated, fails: for a \<^verbatim>\<open>FLOAT64\<close> column the output of \<^verbatim>\<open>min\<close> is initialised to the
  quiet NaN, not to the maximum of the dtype.
\<close>

theorem min_init_float_is_nan_counterexample:
  "elems (snd (aggfunc_output_initialize_kernel example_float64_col min_f False))
     = [Float_NaN, Float_NaN]
   \<and> Float_NaN \<noteq> dtype_max_value (dtype example_float64_col)"
  by (simp add: aggfunc_output_initialize_kernel_def example_float64_col_def
      initialize_min_def fill_data1_def fill_def dtype_max_value_def is_float_dtype_def
      numeral_2_eq_2)

text \<open>
  C3 (amended): for each of the ten numeric dtypes the scan handles, every slot of
  \<^verbatim>\<open>cumulative\<close> belonging to function \<open>j\<close> is initialised to \<open>value_init\<close> of that function,
  which is 0 for cumsum, 1 for cumprod and the maximum of the dtype for cummin, and for
  the integer dtypes the minimum of the dtype for cummax. For a column that is not
  categorical, aggregate output initialisation fills with 1 for prod; for min and max it
  fills with the maximum and the minimum of the dtype on integer dtypes and with NaN on
  floating-point dtypes.
\<close>

theorem identity_initialization:
  assumes "exscan_T_of_dtype d = Some T"
    and "dtype out_col = d" and "arr_type out_col \<noteq> CATEGORICAL"
    and "start \<le> j" and "j < end" and "g < max_row_idx"
  shows "init_cumulative T ftypes start end max_row_idx ! (g + max_row_idx * (j - start))
           = value_init T (ftypes ! j)
     \<and> value_init T cumsum = dtype_zero d \<and> value_init T cumprod = dtype_one d
     \<and> value_init T cummin = dtype_max_value d
     \<and> (is_integer_dtype d \<longrightarrow> value_init T cummax = dtype_min_value d)
     \<and> fst (aggfunc_output_initialize_kernel out_col prod_f use_sql_rules) = None
     \<and> elems (snd (aggfunc_output_initialize_kernel out_col prod_f use_sql_rules)) =
         fill (arr_length out_col) (dtype_one d) (elems out_col)
     \<and> (is_integer_dtype d \<longrightarrow>
          elems (snd (aggfunc_output_initialize_kernel out_col min_f use_sql_rules)) =
            fill (arr_length out_col) (dtype_max_value d) (elems out_col)
        \<and> elems (snd (aggfunc_output_initialize_kernel out_col max_f use_sql_rules)) =
            fill (arr_length out_col) (dtype_min_value d) (elems out_col))
     \<and> (is_float_dtype d \<longrightarrow>
          elems (snd (aggfunc_output_initialize_kernel out_col min_f use_sql_rules)) =
            fill (arr_length out_col) Float_NaN (elems out_col)
        \<and> elems (snd (aggfunc_output_initialize_kernel out_col max_f use_sql_rules)) =
            fill (arr_length out_col) Float_NaN (elems out_col))"
proof -
  have T': "exscan_T_of_dtype (dtype out_col) = Some T"
    using assms(1,2) by simp
  show ?thesis
    using init_cumulative_slot [OF assms(4,5,6), of T ftypes]
      value_init_identities [OF assms(1)]
      aggregate_init_values [OF T' assms(3), of use_sql_rules]
    unfolding assms(2) by blast
qed


theorem identity_initialization_witness:
  "exscan_T_of_dtype INT8 = Some T_int8
   \<and> dtype example_int8_col = INT8 \<and> arr_type example_int8_col \<noteq> CATEGORICAL
   \<and> (0::nat) \<le> 1 \<and> (1::nat) < 2 \<and> (0::nat) < 1
   \<and> init_cumulative T_int8 [cumsum, cummax] 0 2 1 ! (0 + 1 * (1 - 0)) = Int_val (- 128)
   \<and> value_init T_int8 cumsum = Int_val 0 \<and> value_init T_int8 cumprod = Int_val 1
   \<and> value_init T_int8 cummin = Int_val 127
   \<and> value_init T_int8 cummax = Int_val (- 128)
   \<and> elems (snd (aggfunc_output_initialize_kernel example_int8_col min_f False)) =
         fill 2 (Int_val 127) [Int_val 0, Int_val 0]"
proof -
  have h1: "exscan_T_of_dtype INT8 = Some T_int8"
    by (simp add: exscan_T_of_dtype_def)
  have h2: "dtype example_int8_col = INT8"
    by (simp add: example_int8_col_def)
  have h3: "arr_type example_int8_col \<noteq> CATEGORICAL"
    by (simp add: example_int8_col_def)
  have h4: "(0::nat) \<le> 1" and h5: "(1::nat) < 2" and h6: "(0::nat) < 1"
    by simp_all
  have int8: "is_integer_dtype INT8"
    by (simp add: is_integer_dtype_def)
  have vals: "dtype_zero INT8 = Int_val 0" "dtype_one INT8 = Int_val 1"
    "dtype_max_value INT8 = Int_val 127" "dtype_min_value INT8 = Int_val (- 128)"
    by (simp_all add: dtype_value_defs)
  have col: "arr_length example_int8_col = 2" "elems example_int8_col = [Int_val 0, Int_val 0]"
    by (simp_all add: example_int8_col_def)
  have f: "[cumsum, cummax] ! 1 = cummax"
    by simp
  note rule = identity_initialization [OF h1 h2 h3 h4 h5 h6, of "[cumsum, cummax]" False]
  show ?thesis
    using rule h1 h2 h3 int8 unfolding vals col f by simp
qed

subsection \<open>Group ids of the streaming groupby\<close>

lemmas groupby_defs = groupby_build_consume_batch_def consume_rows_def update_groups_def
  map_find_def map_assign_def HashGroupbyTable_def KeyEqualGroupbyTable_def TestEqualJoin_def
  hash_keys_table_def combine_input_table_def combine_column_def single_process_env_def
  groupby_produce_output_batch_def GroupbyState_init_def

lemma cell_equal:
  "(case x of None \<Rightarrow> (case y of None \<Rightarrow> True | Some b \<Rightarrow> False)
            | Some a \<Rightarrow> (case y of None \<Rightarrow> False | Some b \<Rightarrow> a = b)) \<longleftrightarrow> x = y"
  by (cases x; cases y) simp_all

lemma TestEqualJoin_take:
  assumes "n \<le> length (fst (A ! i))" "n \<le> length (fst (B ! j))"
  shows "TestEqualJoin A B i j n True \<longleftrightarrow> take n (fst (A ! i)) = take n (fst (B ! j))"
proof -
  have "TestEqualJoin A B i j n True \<longleftrightarrow> (\<forall>c<n. fst (A ! i) ! c = fst (B ! j) ! c)"
    by (simp add: TestEqualJoin_def list_all_iff cell_equal Ball_def)
  also have "\<dots> \<longleftrightarrow> take n (fst (A ! i)) = take n (fst (B ! j))"
    using assms by (auto simp add: list_eq_iff_nth_eq)
  finally show ?thesis .
qed


lemma entry_pred:
  assumes inv: "side_inv env is_local st K"
    and tbl: "in_table st = in_tbl"
      "in_table_hashes st = hash_keys_table (hash_keys_groupby env) in_tbl (n_keys st)"
    and i: "i_row < length in_tbl" "n_keys st \<le> length (fst (in_tbl ! i_row))"
    and g: "g < length K"
  shows "(HashGroupbyTable is_local st (int g) = HashGroupbyTable is_local st (- int i_row - 1)
          \<and> KeyEqualGroupbyTable is_local st (int g) (- int i_row - 1))
         \<longleftrightarrow> K ! g = take (n_keys st) (fst (in_tbl ! i_row))"
proof -
  let ?n = "n_keys st"
  let ?k = "take ?n (fst (in_tbl ! i_row))"
  have rows: "map fst (build_rows is_local st) = K"
    using inv by (simp add: side_inv_def)
  then have len: "length (build_rows is_local st) = length K"
    by (metis length_map)
  have kg: "fst (build_rows is_local st ! g) = K ! g"
    using rows g len by (metis nth_map)
  have lg: "length (K ! g) = ?n"
    using inv g by (simp add: side_inv_def)
  have eq: "KeyEqualGroupbyTable is_local st (int g) (- int i_row - 1) \<longleftrightarrow> K ! g = ?k"
  proof -
    have "KeyEqualGroupbyTable is_local st (int g) (- int i_row - 1) \<longleftrightarrow>
        TestEqualJoin (build_rows is_local st) in_tbl g i_row ?n True"
      using tbl(1) by (simp add: KeyEqualGroupbyTable_def build_rows_def Let_def)
    also have "\<dots> \<longleftrightarrow> take ?n (fst (build_rows is_local st ! g)) = ?k"
      by (rule TestEqualJoin_take) (use kg lg i in simp_all)
    also have "\<dots> \<longleftrightarrow> K ! g = ?k"
      using kg lg by simp
    finally show ?thesis .
  qed
  have hb: "HashGroupbyTable is_local st (int g) = hash_keys_groupby env (K ! g)"
    using inv g by (simp add: HashGroupbyTable_def side_inv_def)
  have hi: "HashGroupbyTable is_local st (- int i_row - 1) = hash_keys_groupby env ?k"
    using tbl(2) i(1) by (simp add: HashGroupbyTable_def hash_keys_table_def)
  show ?thesis
    using eq hb hi by auto
qed

lemma find_entries_None:
  assumes "\<And>g. g < n \<Longrightarrow> \<not> P (int g, int g)"
  shows "find P (map (\<lambda>g. (int g, int g)) [0..<n]) = None"
  using assms by (auto simp add: find_None_iff)

lemma find_entries_Some:
  assumes "g < n" "P (int g, int g)" "\<And>j. j < g \<Longrightarrow> \<not> P (int j, int j)"
  shows "find P (map (\<lambda>g. (int g, int g)) [0..<n]) = Some (int g, int g)"
  unfolding find_Some_iff
  by (rule exI [of _ g]) (use assms in auto)

lemma map_find_absent:
  assumes inv: "side_inv env is_local st K"
    and tbl: "in_table st = in_tbl"
      "in_table_hashes st = hash_keys_table (hash_keys_groupby env) in_tbl (n_keys st)"
    and i: "i_row < length in_tbl" "n_keys st \<le> length (fst (in_tbl ! i_row))"
    and new: "take (n_keys st) (fst (in_tbl ! i_row)) \<notin> set K"
  shows "map_find is_local st (map (\<lambda>g. (int g, int g)) [0..<length K]) (- int i_row - 1) = None"
  unfolding map_find_def
proof (rule find_entries_None)
  fix g assume g: "g < length K"
  then have "K ! g \<noteq> take (n_keys st) (fst (in_tbl ! i_row))"
    using new by (metis nth_mem)
  then show "\<not> (case (int g, int g) of (k', v) \<Rightarrow>
      HashGroupbyTable is_local st k' = HashGroupbyTable is_local st (- int i_row - 1)
      \<and> KeyEqualGroupbyTable is_local st k' (- int i_row - 1))"
    using entry_pred [OF inv tbl i g] by simp
qed

lemma map_find_present:
  assumes inv: "side_inv env is_local st K"
    and tbl: "in_table st = in_tbl"
      "in_table_hashes st = hash_keys_table (hash_keys_groupby env) in_tbl (n_keys st)"
    and i: "i_row < length in_tbl" "n_keys st \<le> length (fst (in_tbl ! i_row))"
    and g: "g < length K" "K ! g = take (n_keys st) (fst (in_tbl ! i_row))"
  shows "map_find is_local st (map (\<lambda>g. (int g, int g)) [0..<length K]) (- int i_row - 1)
           = Some (int g, int g)"
  unfolding map_find_def
proof (rule find_entries_Some [OF g(1)])
  show "case (int g, int g) of (k', v) \<Rightarrow>
      HashGroupbyTable is_local st k' = HashGroupbyTable is_local st (- int i_row - 1)
      \<and> KeyEqualGroupbyTable is_local st k' (- int i_row - 1)"
    using entry_pred [OF inv tbl i g(1)] g(2) by simp
next
  fix j assume j: "j < g"
  have d: "distinct K" using inv by (simp add: side_inv_def)
  have "K ! j \<noteq> K ! g"
    using d j g(1) by (simp add: nth_eq_iff_index_eq)
  then show "\<not> (case (int j, int j) of (k', v) \<Rightarrow>
      HashGroupbyTable is_local st k' = HashGroupbyTable is_local st (- int i_row - 1)
      \<and> KeyEqualGroupbyTable is_local st k' (- int i_row - 1))"
    using entry_pred [OF inv tbl i, of j] j g by simp
qed


lemma new_entry_absent:
  assumes rows: "map fst (build_rows is_local st1) = K @ [k]"
    and lens: "\<forall>k' \<in> set (K @ [k]). length k' = n_keys st1"
    and new: "k \<notin> set K"
  shows "map_find is_local st1 (map (\<lambda>g. (int g, int g)) [0..<length K]) (int (length K)) = None"
  unfolding map_find_def
proof (rule find_entries_None)
  fix g assume g: "g < length K"
  let ?rows = "build_rows is_local st1"
  have len: "length ?rows = Suc (length K)"
    using rows by (metis length_map length_append_singleton)
  have kg: "fst (?rows ! g) = K ! g"
    using rows g len by (metis less_Suc_eq nth_map nth_append)
  have kn: "fst (?rows ! length K) = k"
    using rows len by (metis lessI nth_map nth_append_length)
  have lg: "length (K ! g) = n_keys st1" and lk: "length k = n_keys st1"
    using lens g by simp_all
  have "KeyEqualGroupbyTable is_local st1 (int g) (int (length K)) \<longleftrightarrow>
      TestEqualJoin ?rows ?rows g (length K) (n_keys st1) True"
    by (simp add: KeyEqualGroupbyTable_def build_rows_def Let_def)
  also have "\<dots> \<longleftrightarrow> take (n_keys st1) (fst (?rows ! g)) = take (n_keys st1) (fst (?rows ! length K))"
    by (rule TestEqualJoin_take) (use kg kn lg lk in simp_all)
  also have "\<dots> \<longleftrightarrow> K ! g = k"
    using kg kn lg lk by simp
  finally have "\<not> KeyEqualGroupbyTable is_local st1 (int g) (int (length K))"
    using new g by (metis nth_mem)
  then show "\<not> (case (int g, int g) of (k', v) \<Rightarrow>
      HashGroupbyTable is_local st1 k' = HashGroupbyTable is_local st1 (int (length K))
      \<and> KeyEqualGroupbyTable is_local st1 k' (int (length K)))"
    by simp
qed

lemma update_groups_found:
  assumes inv: "side_inv env is_local st K"
    and tbl: "in_table st = in_tbl"
      "in_table_hashes st = hash_keys_table (hash_keys_groupby env) in_tbl (n_keys st)"
    and i: "i_row < length in_tbl" "n_keys st \<le> length (fst (in_tbl ! i_row))"
    and g: "g < length K" "K ! g = take (n_keys st) (fst (in_tbl ! i_row))"
  shows "update_groups env is_local st rtg in_tbl hashes i_row = (st, rtg[i_row := int g])"
proof -
  have entries: "(if is_local then local_build_table st else shuffle_build_table st)
      = map (\<lambda>g. (int g, int g)) [0..<length K]"
    using inv by (simp add: side_inv_def)
  show ?thesis
    unfolding update_groups_def Let_def entries map_find_present [OF inv tbl i g]
    by simp
qed

lemma update_groups_new:
  assumes inv: "side_inv env is_local st K"
    and tbl: "in_table st = in_tbl"
      "in_table_hashes st = hash_keys_table (hash_keys_groupby env) in_tbl (n_keys st)"
    and i: "i_row < length in_tbl" "n_keys st \<le> length (fst (in_tbl ! i_row))"
    and new: "take (n_keys st) (fst (in_tbl ! i_row)) \<notin> set K"
    and hashes: "hashes = hash_keys_table (hash_keys_groupby env) in_tbl (n_keys st)"
  shows "\<exists>st'. update_groups env is_local st rtg in_tbl hashes i_row
                  = (st', rtg[i_row := int (length K)])
     \<and> side_inv env is_local st' (K @ [take (n_keys st) (fst (in_tbl ! i_row))])
     \<and> n_keys st' = n_keys st
     \<and> (\<exists>d. build_rows is_local st' =
            build_rows is_local st @ [(take (n_keys st) (fst (in_tbl ! i_row)), d)])
     \<and> next_group_of is_local st' = next_group_of is_local st + 1"
proof -
  let ?k = "take (n_keys st) (fst (in_tbl ! i_row))"
  let ?new_row = "(?k, map (uninitialized env) [0..<length (f_in_cols st)])"
  let ?entries = "map (\<lambda>g. (int g, int g)) [0..<length K]"
  have entries: "(if is_local then local_build_table st else shuffle_build_table st) = ?entries"
    using inv by (simp add: side_inv_def)
  have ng: "(if is_local then local_next_group st else shuffle_next_group st) = int (length K)"
    using inv by (simp add: side_inv_def next_group_of_def)
  have rows: "map fst (build_rows is_local st) = K"
    and lens: "\<forall>k \<in> set K. length k = n_keys st"
    and dist: "distinct K"
    and hs: "(if is_local then local_table_groupby_hashes st else shuffle_table_groupby_hashes st)
         = map (hash_keys_groupby env) K"
    using inv by (simp_all add: side_inv_def)
  have lk: "length ?k = n_keys st"
    using i(2) by simp
  have hk: "hashes ! i_row = hash_keys_groupby env ?k"
    using hashes i(1) by (simp add: hash_keys_table_def)
  define st1 where "st1 =
     (if is_local
      then st\<lparr>local_table_buffer := \<lparr>data_table = data_table (local_table_buffer st) @ [?new_row]\<rparr>,
             local_table_groupby_hashes := local_table_groupby_hashes st @ [hashes ! i_row],
             local_next_group := int (length K) + 1\<rparr>
      else st\<lparr>shuffle_table_buffer := \<lparr>data_table = data_table (shuffle_table_buffer st) @ [?new_row]\<rparr>,
             shuffle_table_groupby_hashes := shuffle_table_groupby_hashes st @ [hashes ! i_row],
             shuffle_next_group := int (length K) + 1\<rparr>)"
  define st2 where "st2 =
     (if is_local
      then st1\<lparr>local_build_table := ?entries @ [(int (length K), int (length K))]\<rparr>
      else st1\<lparr>shuffle_build_table := ?entries @ [(int (length K), int (length K))]\<rparr>)"
  have rows1: "build_rows is_local st1 = build_rows is_local st @ [?new_row]"
    by (simp add: st1_def build_rows_def)
  have n1: "n_keys st1 = n_keys st"
    by (simp add: st1_def)
  have absent: "map_find is_local st1 ?entries (int (length K)) = None"
    by (rule new_entry_absent) (use rows1 rows lens lk n1 new in auto)
  have assign: "map_assign is_local st1 ?entries (int (length K)) (int (length K))
      = ?entries @ [(int (length K), int (length K))]"
    by (simp add: map_assign_def absent)
  have run: "update_groups env is_local st rtg in_tbl hashes i_row
      = (st2, rtg[i_row := int (length K)])"
    unfolding update_groups_def Let_def entries ng
      map_find_absent [OF inv tbl i new]
    using assign by (cases is_local) (simp_all add: st1_def st2_def)
  have inv2: "side_inv env is_local st2 (K @ [?k])"
    unfolding side_inv_def
    using rows lens dist hs lk hk new
    by (cases is_local) (simp_all add: st2_def st1_def build_rows_def next_group_of_def)
  have "n_keys st2 = n_keys st"
    by (simp add: st2_def st1_def)
  moreover have "\<exists>d. build_rows is_local st2 = build_rows is_local st @ [(?k, d)]"
    by (simp add: st2_def st1_def build_rows_def)
  moreover have "next_group_of is_local st2 = next_group_of is_local st + 1"
    using ng by (simp add: st2_def st1_def next_group_of_def)
  ultimately show ?thesis
    using run inv2 by blast
qed


lemma set_input_fields [simp]:
  "side_inv env is_local (st\<lparr>in_table := t, in_table_hashes := h\<rparr>) K = side_inv env is_local st K"
  "build_rows is_local (st\<lparr>in_table := t, in_table_hashes := h\<rparr>) = build_rows is_local st"
  "next_group_of is_local (st\<lparr>in_table := t, in_table_hashes := h\<rparr>) = next_group_of is_local st"
  by (simp_all add: side_inv_def build_rows_def next_group_of_def)

lemma init_inv: "side_inv env is_local (GroupbyState_init keys par cols) []"
  by (simp add: side_inv_def GroupbyState_init_def build_rows_def next_group_of_def)

lemma one_step:
  assumes inv: "side_inv env is_local st K"
    and ok: "step_ok (n_keys st) (in_tbl, i_row)"
    and hashes: "hashes = hash_keys_table (hash_keys_groupby env) in_tbl (n_keys st)"
    and st0: "st0 = st\<lparr>in_table := in_tbl, in_table_hashes := hashes\<rparr>"
    and run: "update_groups env is_local st0 (replicate (length in_tbl) (- 1)) in_tbl hashes i_row
                = (st1, rtg)"
  shows "\<exists>g sfx. rtg ! i_row = int g \<and> g < length (K @ sfx)
     \<and> side_inv env is_local st1 (K @ sfx) \<and> n_keys st1 = n_keys st
     \<and> (K @ sfx) ! g = step_key (n_keys st) (in_tbl, i_row)
     \<and> (\<exists>rs. build_rows is_local st1 = build_rows is_local st @ rs \<and> map fst rs = sfx)
     \<and> next_group_of is_local st1 = next_group_of is_local st + int (length sfx)
     \<and> (if step_key (n_keys st) (in_tbl, i_row) \<in> set K then sfx = []
         else sfx = [step_key (n_keys st) (in_tbl, i_row)] \<and> g = length K)"
proof -
  let ?k = "take (n_keys st) (fst (in_tbl ! i_row))"
  have k: "step_key (n_keys st) (in_tbl, i_row) = ?k"
    by (simp add: step_key_def)
  have i: "i_row < length in_tbl" "n_keys st0 \<le> length (fst (in_tbl ! i_row))"
    using ok by (simp_all add: step_ok_def st0)
  have inv0: "side_inv env is_local st0 K"
    using inv by (simp add: st0)
  have tbl: "in_table st0 = in_tbl"
    "in_table_hashes st0 = hash_keys_table (hash_keys_groupby env) in_tbl (n_keys st0)"
    by (simp_all add: st0 hashes)
  have n0: "n_keys st0 = n_keys st" by (simp add: st0)
  have h0: "hashes = hash_keys_table (hash_keys_groupby env) in_tbl (n_keys st0)"
    by (simp add: hashes n0)
  show ?thesis
  proof (cases "?k \<in> set K")
    case True
    then obtain g where g: "g < length K" "K ! g = ?k"
      by (auto simp add: in_set_conv_nth)
    have "update_groups env is_local st0 (replicate (length in_tbl) (- 1)) in_tbl hashes i_row
        = (st0, (replicate (length in_tbl) (- 1))[i_row := int g])"
      by (rule update_groups_found [OF inv0 tbl i g(1)]) (simp add: g(2) n0)
    then have st1: "st1 = st0" and rtg: "rtg = (replicate (length in_tbl) (- 1))[i_row := int g]"
      using run by simp_all
    have "rtg ! i_row = int g"
      using i(1) by (simp add: rtg)
    then show ?thesis
      using True g inv0 k
      by (intro exI [of _ g] exI [of _ "[]"]) (simp add: st1 st0)
  next
    case False
    then have new: "take (n_keys st0) (fst (in_tbl ! i_row)) \<notin> set K"
      by (simp add: n0)
    obtain st' where st':
      "update_groups env is_local st0 (replicate (length in_tbl) (- 1)) in_tbl hashes i_row
         = (st', (replicate (length in_tbl) (- 1))[i_row := int (length K)])"
      "side_inv env is_local st' (K @ [take (n_keys st0) (fst (in_tbl ! i_row))])"
      "n_keys st' = n_keys st0"
      "\<exists>d. build_rows is_local st' =
            build_rows is_local st0 @ [(take (n_keys st0) (fst (in_tbl ! i_row)), d)]"
      "next_group_of is_local st' = next_group_of is_local st0 + 1"
      using update_groups_new [OF inv0 tbl i new h0] by blast
    have st1: "st1 = st'" and rtg: "rtg = (replicate (length in_tbl) (- 1))[i_row := int (length K)]"
      using run st'(1) by simp_all
    have "rtg ! i_row = int (length K)"
      using i(1) by (simp add: rtg)
    moreover obtain d where "build_rows is_local st' = build_rows is_local st @ [(?k, d)]"
      using st'(4) by (auto simp add: n0 st0)
    ultimately show ?thesis
      using False st'(2,3,5) k
      by (intro exI [of _ "length K"] exI [of _ "[?k]"]) (auto simp add: st1 n0 st0)
  qed
qed


lemma run_spec:
  assumes "side_inv env is_local st K"
    and "\<forall>s \<in> set steps. step_ok (n_keys st) s"
    and "run_update_groups env is_local st steps = (st', gs)"
  shows "\<exists>sfx rs. side_inv env is_local st' (K @ sfx) \<and> n_keys st' = n_keys st
     \<and> build_rows is_local st' = build_rows is_local st @ rs
     \<and> set (K @ sfx) = set K \<union> step_key (n_keys st) ` set steps
     \<and> length gs = length steps
     \<and> (\<forall>p<length steps. \<exists>g. gs ! p = int g \<and> g < length (K @ sfx)
            \<and> (K @ sfx) ! g = step_key (n_keys st) (steps ! p))"
  using assms
proof (induction steps arbitrary: st K st' gs)
  case Nil
  then show ?case
    by (intro exI [of _ "[]"]) simp
next
  case (Cons step steps)
  obtain in_tbl i_row where step: "step = (in_tbl, i_row)"
    by (cases step)
  define hashes where "hashes = hash_keys_table (hash_keys_groupby env) in_tbl (n_keys st)"
  define st0 where "st0 = st\<lparr>in_table := in_tbl, in_table_hashes := hashes\<rparr>"
  obtain st1 rtg where u:
    "update_groups env is_local st0 (replicate (length in_tbl) (- 1)) in_tbl hashes i_row = (st1, rtg)"
    by (cases "update_groups env is_local st0 (replicate (length in_tbl) (- 1)) in_tbl hashes i_row")
  obtain st2 gs' where r: "run_update_groups env is_local st1 steps = (st2, gs')"
    by (cases "run_update_groups env is_local st1 steps")
  have res: "st' = st2" "gs = rtg ! i_row # gs'"
    using Cons.prems(3) u r by (simp_all add: step Let_def hashes_def st0_def)
  have ok: "step_ok (n_keys st) (in_tbl, i_row)"
    using Cons.prems(2) by (simp add: step)
  obtain g sfx1 where one:
    "rtg ! i_row = int g" "g < length (K @ sfx1)"
    "side_inv env is_local st1 (K @ sfx1)" "n_keys st1 = n_keys st"
    "(K @ sfx1) ! g = step_key (n_keys st) (in_tbl, i_row)"
    "\<exists>rs. build_rows is_local st1 = build_rows is_local st @ rs \<and> map fst rs = sfx1"
    "if step_key (n_keys st) (in_tbl, i_row) \<in> set K then sfx1 = []
     else sfx1 = [step_key (n_keys st) (in_tbl, i_row)] \<and> g = length K"
    using one_step [OF Cons.prems(1) ok hashes_def st0_def u] by blast
  have oks: "\<forall>s \<in> set steps. step_ok (n_keys st1) s"
    using Cons.prems(2) one(4) by simp
  obtain sfx2 rs2 where ih:
    "side_inv env is_local st2 ((K @ sfx1) @ sfx2)" "n_keys st2 = n_keys st1"
    "build_rows is_local st2 = build_rows is_local st1 @ rs2"
    "set ((K @ sfx1) @ sfx2) = set (K @ sfx1) \<union> step_key (n_keys st1) ` set steps"
    "length gs' = length steps"
    "\<forall>p<length steps. \<exists>g. gs' ! p = int g \<and> g < length ((K @ sfx1) @ sfx2)
            \<and> ((K @ sfx1) @ sfx2) ! g = step_key (n_keys st1) (steps ! p)"
    using Cons.IH [OF one(3) oks r] by blast
  obtain rs1 where rs1: "build_rows is_local st1 = build_rows is_local st @ rs1"
    using one(6) by blast
  have sets: "set (K @ sfx1) = set K \<union> {step_key (n_keys st) (in_tbl, i_row)}"
    using one(7) by (auto split: if_splits)
  have all: "\<exists>g. (rtg ! i_row # gs') ! p = int g \<and> g < length (K @ sfx1 @ sfx2)
            \<and> (K @ sfx1 @ sfx2) ! g = step_key (n_keys st) ((step # steps) ! p)"
    if "p < length (step # steps)" for p
  proof (cases p)
    case 0
    have "(K @ sfx1 @ sfx2) ! g = (K @ sfx1) ! g"
      using one(2) by (metis append.assoc nth_append)
    then show ?thesis
      using 0 one(1,2,5) by (intro exI [of _ g]) (simp add: step)
  next
    case (Suc q)
    then have "q < length steps" using that by simp
    then show ?thesis
      using ih(6) Suc one(4) by simp
  qed
  show ?case
    apply (intro exI [of _ "sfx1 @ sfx2"] exI [of _ "rs1 @ rs2"])
    using ih(1,2,3,4,5) one(4) rs1 sets all
    by (simp add: res step)
qed

lemma run_append:
  "run_update_groups env is_local st (xs @ ys) =
     (case run_update_groups env is_local st xs of
        (st1, g1) \<Rightarrow> (case run_update_groups env is_local st1 ys of
                        (st2, g2) \<Rightarrow> (st2, g1 @ g2)))"
  by (induction xs arbitrary: st) (auto simp add: Let_def split: prod.splits)


text \<open>
  Between two resets of its buffer a build table keeps its group ids. Take any sequence of
  \<^verbatim>\<open>update_groups\<close> calls on a build table (local or shuffle) that starts empty, and one
  more call. The ids given to the earlier rows are not changed
  by the later call, and the rows of the table are only extended. The later call returns
  the id of every earlier row with an equal key (null cells equal to null cells); two rows
  have the same id exactly when their keys are equal; the id of a row is the index of the
  table row that holds its key. A key not seen before gets the id \<^verbatim>\<open>next_group\<close>, which
  is then incremented, and one row is appended; a key seen before changes neither.
\<close>

theorem group_ids_stable:
  assumes oks: "\<forall>s \<in> set steps. step_ok keys s" and ok: "step_ok keys step"
    and r1: "run_update_groups env is_local (GroupbyState_init keys par cols) steps = (st1, gs1)"
    and r2: "run_update_groups env is_local (GroupbyState_init keys par cols) (steps @ [step])
               = (st2, gs2)"
  shows "\<exists>g sfx. gs2 = gs1 @ [g] \<and> length gs1 = length steps
     \<and> build_rows is_local st2 = build_rows is_local st1 @ sfx
     \<and> (\<forall>p<length steps. step_key keys (steps ! p) = step_key keys step \<longrightarrow> g = gs1 ! p)
     \<and> (\<forall>p<length steps. \<forall>q<length steps.
           (gs1 ! p = gs1 ! q) = (step_key keys (steps ! p) = step_key keys (steps ! q)))
     \<and> (\<forall>p<length steps. 0 \<le> gs1 ! p \<and> gs1 ! p < next_group_of is_local st1
           \<and> fst (build_rows is_local st1 ! nat (gs1 ! p)) = step_key keys (steps ! p))
     \<and> (if \<exists>p<length steps. step_key keys (steps ! p) = step_key keys step
         then next_group_of is_local st2 = next_group_of is_local st1 \<and> sfx = []
         else g = next_group_of is_local st1
              \<and> next_group_of is_local st2 = next_group_of is_local st1 + 1
              \<and> map fst sfx = [step_key keys step])"
proof -
  let ?init = "GroupbyState_init keys par cols :: 'a GroupbyState"
  have n0: "n_keys ?init = keys"
    by (simp add: GroupbyState_init_def)
  have oks0: "\<forall>s \<in> set steps. step_ok (n_keys ?init) s"
    using oks n0 by simp
  obtain K where K:
    "side_inv env is_local st1 K" "n_keys st1 = keys"
    "set K = step_key keys ` set steps" "length gs1 = length steps"
    "\<forall>p<length steps. \<exists>g. gs1 ! p = int g \<and> g < length K \<and> K ! g = step_key keys (steps ! p)"
    using run_spec [OF init_inv oks0 r1] n0 by auto
  have rows: "map fst (build_rows is_local st1) = K" and dist: "distinct K"
    and ng: "next_group_of is_local st1 = int (length K)"
    using K(1) by (simp_all add: side_inv_def)
  obtain in_tbl i_row where step: "step = (in_tbl, i_row)"
    by (cases step)
  define hashes where "hashes = hash_keys_table (hash_keys_groupby env) in_tbl (n_keys st1)"
  define st0 where "st0 = st1\<lparr>in_table := in_tbl, in_table_hashes := hashes\<rparr>"
  obtain st' rtg where u:
    "update_groups env is_local st0 (replicate (length in_tbl) (- 1)) in_tbl hashes i_row = (st', rtg)"
    by (cases "update_groups env is_local st0 (replicate (length in_tbl) (- 1)) in_tbl hashes i_row")
  have res: "st2 = st'" "gs2 = gs1 @ [rtg ! i_row]"
    using r2 r1 u by (simp_all add: run_append step Let_def hashes_def st0_def)
  have ok1: "step_ok (n_keys st1) (in_tbl, i_row)"
    using ok K(2) by (simp add: step)
  obtain g sfx where one:
    "rtg ! i_row = int g" "g < length (K @ sfx)"
    "(K @ sfx) ! g = step_key keys step"
    "\<exists>rs. build_rows is_local st' = build_rows is_local st1 @ rs \<and> map fst rs = sfx"
    "next_group_of is_local st' = next_group_of is_local st1 + int (length sfx)"
    "if step_key keys step \<in> set K then sfx = []
     else sfx = [step_key keys step] \<and> g = length K"
    using one_step [OF K(1) ok1 hashes_def st0_def u] K(2) step by blast
  obtain rs where rs: "build_rows is_local st' = build_rows is_local st1 @ rs" "map fst rs = sfx"
    using one(4) by blast
  have seen: "(\<exists>p<length steps. step_key keys (steps ! p) = step_key keys step)
      \<longleftrightarrow> step_key keys step \<in> set K"
  proof
    assume "\<exists>p<length steps. step_key keys (steps ! p) = step_key keys step"
    then obtain p where "p < length steps" "step_key keys (steps ! p) = step_key keys step"
      by blast
    then show "step_key keys step \<in> set K"
      unfolding K(3) by (metis imageI nth_mem)
  next
    assume "step_key keys step \<in> set K"
    then obtain s where "s \<in> set steps" "step_key keys s = step_key keys step"
      unfolding K(3) by auto
    then show "\<exists>p<length steps. step_key keys (steps ! p) = step_key keys step"
      by (metis in_set_conv_nth)
  qed
  have same: "rtg ! i_row = gs1 ! p"
    if p: "p < length steps" and eq: "step_key keys (steps ! p) = step_key keys step" for p
  proof -
    obtain gp where gp: "gs1 ! p = int gp" "gp < length K" "K ! gp = step_key keys (steps ! p)"
      using K(5) p by blast
    have "step_key keys step \<in> set K"
      using seen p eq by blast
    then have "sfx = []" using one(6) by simp
    then have "g < length K" "K ! g = K ! gp"
      using one(2,3) gp(3) eq by simp_all
    then have "g = gp"
      using dist gp(2) by (simp add: nth_eq_iff_index_eq)
    then show ?thesis using one(1) gp(1) by simp
  qed
  have inj: "(gs1 ! p = gs1 ! q) = (step_key keys (steps ! p) = step_key keys (steps ! q))"
    if p: "p < length steps" and q: "q < length steps" for p q
  proof -
    obtain gp where gp: "gs1 ! p = int gp" "gp < length K" "K ! gp = step_key keys (steps ! p)"
      using K(5) p by blast
    obtain gq where gq: "gs1 ! q = int gq" "gq < length K" "K ! gq = step_key keys (steps ! q)"
      using K(5) q by blast
    have "(gp = gq) = (K ! gp = K ! gq)"
      using dist gp(2) gq(2) by (simp add: nth_eq_iff_index_eq)
    then show ?thesis
      using gp gq by simp
  qed
  have idx: "0 \<le> gs1 ! p \<and> gs1 ! p < next_group_of is_local st1
           \<and> fst (build_rows is_local st1 ! nat (gs1 ! p)) = step_key keys (steps ! p)"
    if p: "p < length steps" for p
  proof -
    obtain gp where gp: "gs1 ! p = int gp" "gp < length K" "K ! gp = step_key keys (steps ! p)"
      using K(5) p by blast
    have "gp < length (build_rows is_local st1)"
      using rows gp(2) by (metis length_map)
    then have "fst (build_rows is_local st1 ! gp) = K ! gp"
      using rows by (metis nth_map)
    then show ?thesis
      using gp ng by simp
  qed
  have last: "if \<exists>p<length steps. step_key keys (steps ! p) = step_key keys step
         then next_group_of is_local st' = next_group_of is_local st1 \<and> rs = []
         else rtg ! i_row = next_group_of is_local st1
              \<and> next_group_of is_local st' = next_group_of is_local st1 + 1
              \<and> map fst rs = [step_key keys step]"
    using one(1,5,6) rs(2) ng unfolding seen by (auto split: if_splits)
  show ?thesis
    apply (intro exI [of _ "rtg ! i_row"] exI [of _ rs])
    using res K(4) rs(1) same inj idx last by simp
qed


theorem group_ids_stable_witness:
  "step_ok 1 (example_steps ! 0) \<and> step_ok 1 (example_steps ! 1) \<and> step_ok 1 example_step
   \<and> snd (run_update_groups example_env True (GroupbyState_init 1 False [1]) example_steps)
       = [0, 1]
   \<and> snd (run_update_groups example_env True (GroupbyState_init 1 False [1])
            (example_steps @ [example_step])) = [0, 1, 0]
   \<and> (\<exists>g sfx.
         snd (run_update_groups example_env True (GroupbyState_init 1 False [1])
                (example_steps @ [example_step]))
           = snd (run_update_groups example_env True (GroupbyState_init 1 False [1])
                    example_steps) @ [g]
         \<and> build_rows True
              (fst (run_update_groups example_env True (GroupbyState_init 1 False [1])
                      (example_steps @ [example_step])))
           = build_rows True
               (fst (run_update_groups example_env True (GroupbyState_init 1 False [1])
                       example_steps)) @ sfx
         \<and> (\<forall>p<length example_steps.
               step_key 1 (example_steps ! p) = step_key 1 example_step \<longrightarrow>
               g = snd (run_update_groups example_env True (GroupbyState_init 1 False [1])
                          example_steps) ! p))"
proof -
  let ?init = "GroupbyState_init 1 False [1] :: string GroupbyState"
  let ?r1 = "run_update_groups example_env True ?init example_steps"
  let ?r2 = "run_update_groups example_env True ?init (example_steps @ [example_step])"
  have h1: "\<forall>s \<in> set example_steps. step_ok 1 s"
    by (simp add: example_steps_def step_ok_def)
  have h2: "step_ok 1 example_step"
    by (simp add: example_step_def step_ok_def)
  have s0: "step_ok 1 (example_steps ! 0)" and s1: "step_ok 1 (example_steps ! 1)"
    by (simp_all add: example_steps_def step_ok_def)
  have h3: "?r1 = (fst ?r1, snd ?r1)" and h4: "?r2 = (fst ?r2, snd ?r2)"
    by simp_all
  have g1: "snd ?r1 = [0, 1]"
    by (simp add: example_steps_def example_env_def groupby_defs Let_def)
  have g2: "snd ?r2 = [0, 1, 0]"
    by (simp add: example_steps_def example_step_def example_env_def groupby_defs Let_def)
  show ?thesis
    using s0 s1 h2 g1 g2 group_ids_stable [OF h1 h2 h3 h4] by blast
qed

subsection \<open>The sum scenario\<close>

lemma scenario_update_table:
  "get_update_table scenario_state scenario_rows = [([Some ''A''], [4]), ([Some ''B''], [2])]"
  by code_simp

lemma single_row_update_table:
  "get_update_table (st :: string GroupbyState) [r] =
     [(take (n_keys st) (fst r), map (\<lambda>c. snd r ! (c - n_keys st)) (f_in_cols st))]"
  by (simp add: get_update_table_def distinct_keys_def)

lemma scenario_one_batch:
  "groupby_produce_output_batch
     (groupby_build_consume_batch (single_process_env hg hp garbage)
        scenario_state scenario_rows True)
   = ([([Some ''A''], [4]), ([Some ''B''], [2])], True)"
  unfolding groupby_build_consume_batch_def scenario_update_table Let_def
  by (simp add: groupby_defs scenario_state_def Let_def numeral_2_eq_2)

lemma scenario_three_batches:
  "groupby_produce_output_batch
     (groupby_build_consume_batch (single_process_env hg hp garbage)
        (groupby_build_consume_batch (single_process_env hg hp garbage)
           (groupby_build_consume_batch (single_process_env hg hp garbage)
              scenario_state [scenario_rows ! 0] False)
           [scenario_rows ! 1] False)
        [scenario_rows ! 2] True)
   = ([([Some ''A''], [4]), ([Some ''B''], [2])], True)"
  by (simp add: groupby_defs single_row_update_table scenario_state_def scenario_rows_def
      Let_def)

text \<open>
  C5: a single process groups the rows (A,1), (B,2), (A,3) by the first column with sum
  on the second. Whatever the hash functions and whatever the unwritten data slots hold,
  the output is the two groups A: 4 and B: 2, both when the rows arrive as one batch and
  when they arrive as three batches of one row.
\<close>

theorem scenario_sum_by_key:
  "fst (groupby_produce_output_batch
         (groupby_build_consume_batch (single_process_env hg hp garbage)
            scenario_state scenario_rows True))
     = [([Some ''A''], [4]), ([Some ''B''], [2])]
   \<and> fst (groupby_produce_output_batch
         (groupby_build_consume_batch (single_process_env hg hp garbage)
            (groupby_build_consume_batch (single_process_env hg hp garbage)
               (groupby_build_consume_batch (single_process_env hg hp garbage)
                  scenario_state [scenario_rows ! 0] False)
               [scenario_rows ! 1] False)
            [scenario_rows ! 2] True))
     = [([Some ''A''], [4]), ([Some ''B''], [2])]"
  by (simp only: scenario_one_batch scenario_three_batches fst_conv simp_thms)

subsection \<open>Null handling of the nullable exclusive scan\<close>

lemma null_seen_iff:
  "null_seen cat ic g n \<longleftrightarrow> (\<exists>i<n. elems cat ! i = g \<and> \<not> null_bits ic ! i)"
  by (auto simp add: null_seen_def list_ex_iff)

lemma codes_okD:
  "codes_ok cat M n \<Longrightarrow> i < n \<Longrightarrow> elems cat ! i \<noteq> - 1 \<Longrightarrow>
     0 \<le> elems cat ! i \<and> nat (elems cat ! i) < M"
  by (auto simp add: codes_ok_def list_all_iff)

lemma codes_ok_less: "codes_ok cat M (Suc n) \<Longrightarrow> codes_ok cat M n"
  by (simp add: codes_ok_def)

lemma slot_in_range:
  assumes "g < (M::nat)" "M * Suc jj \<le> L"
  shows "g + M * jj < L"
  using assms by simp

lemma local_pass_not_skipped:
  assumes ok: "codes_ok cat M n"
    and len_w: "n \<le> length (null_bits w0)"
    and len_m: "M * Suc jj \<le> length m0"
    and run: "fold (local_row oper False cat ic M jj) [0..<n] (w0, c0, m0) = (w, c, m)"
  shows "length (null_bits w) = length (null_bits w0) \<and> length m = length m0
     \<and> (\<forall>p. p < length m0 \<longrightarrow> (m ! p = 1) =
           (m0 ! p = 1 \<or> (\<exists>i<n. elems cat ! i \<noteq> - 1 \<and> nat (elems cat ! i) + M * jj = p
                               \<and> \<not> null_bits ic ! i)))
     \<and> (\<forall>p. p < length m0 \<longrightarrow> m ! p = m0 ! p \<or> m ! p = 1)
     \<and> (\<forall>i. i < n \<longrightarrow> null_bits w ! i =
           (elems cat ! i \<noteq> - 1 \<and> null_bits ic ! i
            \<and> m0 ! (nat (elems cat ! i) + M * jj) \<noteq> 1
            \<and> \<not> null_seen cat ic (elems cat ! i) i))
     \<and> (\<forall>i. n \<le> i \<longrightarrow> null_bits w ! i = null_bits w0 ! i)"
  using ok len_w run
proof (induction n arbitrary: w c m)
  case 0
  then show ?case by simp
next
  case (Suc n)
  obtain w1 c1 m1 where r1: "fold (local_row oper False cat ic M jj) [0..<n] (w0, c0, m0) = (w1, c1, m1)"
    by (cases "fold (local_row oper False cat ic M jj) [0..<n] (w0, c0, m0)")
  have prems: "codes_ok cat M (Suc n)" "Suc n \<le> length (null_bits w0)"
    "fold (local_row oper False cat ic M jj) [0..<Suc n] (w0, c0, m0) = (w, c, m)"
    using Suc.prems by simp_all
  have ok': "codes_ok cat M n" using prems(1) by (rule codes_ok_less)
  have lw: "n \<le> length (null_bits w0)" using prems(2) by simp
  note ih = Suc.IH [OF ok' lw r1]
  have lw1: "length (null_bits w1) = length (null_bits w0)"
    by (rule ih [THEN conjunct1])
  have lm1: "length m1 = length m0"
    by (rule ih [THEN conjunct2, THEN conjunct1])
  have m1: "\<And>p. p < length m0 \<Longrightarrow> (m1 ! p = 1) =
           (m0 ! p = 1 \<or> (\<exists>i<n. elems cat ! i \<noteq> - 1 \<and> nat (elems cat ! i) + M * jj = p
                               \<and> \<not> null_bits ic ! i))"
    by (rule ih [THEN conjunct2, THEN conjunct2, THEN conjunct1, rule_format])
  have m1': "\<And>p. p < length m0 \<Longrightarrow> m1 ! p = m0 ! p \<or> m1 ! p = 1"
    by (rule ih [THEN conjunct2, THEN conjunct2, THEN conjunct2, THEN conjunct1, rule_format])
  have w1: "\<And>i. i < n \<Longrightarrow> null_bits w1 ! i =
           (elems cat ! i \<noteq> - 1 \<and> null_bits ic ! i
            \<and> m0 ! (nat (elems cat ! i) + M * jj) \<noteq> 1
            \<and> \<not> null_seen cat ic (elems cat ! i) i)"
    by (rule ih [THEN conjunct2, THEN conjunct2, THEN conjunct2, THEN conjunct2,
          THEN conjunct1, rule_format])
  have w1': "\<And>i. i \<ge> n \<Longrightarrow> null_bits w1 ! i = null_bits w0 ! i"
    by (rule ih [THEN conjunct2, THEN conjunct2, THEN conjunct2, THEN conjunct2,
          THEN conjunct2, rule_format])
  have step: "local_row oper False cat ic M jj n (w1, c1, m1) = (w, c, m)"
    using prems(3) r1 by simp
  have n_in: "n < length (null_bits w1)"
    using prems(2) lw1 by simp
  let ?idx = "elems cat ! n"
  let ?pos = "nat ?idx + M * jj"
  let ?valid = "null_bits ic ! n"
  have res_w: "null_bits w = (null_bits w1)[n := (?idx \<noteq> - 1 \<and> ?valid \<and> m1 ! ?pos \<noteq> 1)]"
    using step by (auto simp add: local_row_def set_null_bit_def Let_def split: if_splits)
  have res_m: "m = (if ?idx \<noteq> - 1 \<and> \<not> ?valid then m1[?pos := 1] else m1)"
    using step by (auto simp add: local_row_def set_null_bit_def Let_def split: if_splits)
  have pos: "?pos < length m0" if "?idx \<noteq> - 1"
  proof -
    have "nat ?idx < M" using codes_okD [OF prems(1) _ that] by simp
    then show ?thesis using len_m by (rule slot_in_range)
  qed
  have same_slot: "(nat (elems cat ! i) + M * jj = ?pos) = (elems cat ! i = ?idx)"
    if "i < n" "elems cat ! i \<noteq> - 1" "?idx \<noteq> - 1" for i
  proof -
    have "0 \<le> elems cat ! i" using codes_okD [OF ok' that(1,2)] by simp
    moreover have "0 \<le> ?idx" using codes_okD [OF prems(1) _ that(3)] by simp
    ultimately show ?thesis by auto
  qed
  have seen: "(m1 ! ?pos = 1) = (m0 ! ?pos = 1 \<or> null_seen cat ic ?idx n)" if nm: "?idx \<noteq> - 1"
  proof -
    have "(\<exists>i<n. elems cat ! i \<noteq> - 1 \<and> nat (elems cat ! i) + M * jj = ?pos \<and> \<not> null_bits ic ! i)
        = (\<exists>i<n. elems cat ! i = ?idx \<and> \<not> null_bits ic ! i)"
      using same_slot nm by (metis (no_types, lifting))
    then show ?thesis
      using m1 [OF pos [OF nm]] by (simp add: null_seen_iff)
  qed
  have c1: "length (null_bits w) = length (null_bits w0)"
    using lw1 by (simp add: res_w)
  have c2: "length m = length m0"
    using lm1 by (simp add: res_m)
  have c3: "(m ! p = 1) =
           (m0 ! p = 1 \<or> (\<exists>i<Suc n. elems cat ! i \<noteq> - 1 \<and> nat (elems cat ! i) + M * jj = p
                               \<and> \<not> null_bits ic ! i))" if p: "p < length m0" for p
  proof -
    have split: "(\<exists>i<Suc n. elems cat ! i \<noteq> - 1 \<and> nat (elems cat ! i) + M * jj = p
                               \<and> \<not> null_bits ic ! i)
        = ((\<exists>i<n. elems cat ! i \<noteq> - 1 \<and> nat (elems cat ! i) + M * jj = p \<and> \<not> null_bits ic ! i)
           \<or> (?idx \<noteq> - 1 \<and> ?pos = p \<and> \<not> ?valid))"
      by (auto simp add: less_Suc_eq)
    show ?thesis
    proof (cases "?idx \<noteq> - 1 \<and> \<not> ?valid")
      case True
      then have m: "m = m1[?pos := 1]" by (simp add: res_m)
      show ?thesis
      proof (cases "p = ?pos")
        case True
        then show ?thesis
          unfolding split m using p lm1 \<open>?idx \<noteq> - 1 \<and> \<not> ?valid\<close> by simp
      next
        case False
        then show ?thesis
          unfolding split m using m1 [OF p] by auto
      qed
    next
      case False
      then have m: "m = m1" by (auto simp add: res_m)
      show ?thesis
        unfolding split m using m1 [OF p] False by auto
    qed
  qed
  have c4: "m ! p = m0 ! p \<or> m ! p = 1" if p: "p < length m0" for p
  proof (cases "p = ?pos")
    case True
    then show ?thesis
      using m1' [OF p] p lm1 by (simp add: res_m)
  next
    case False
    then show ?thesis
      using m1' [OF p] by (simp add: res_m)
  qed
  have c5: "null_bits w ! i =
           (elems cat ! i \<noteq> - 1 \<and> null_bits ic ! i
            \<and> m0 ! (nat (elems cat ! i) + M * jj) \<noteq> 1
            \<and> \<not> null_seen cat ic (elems cat ! i) i)" if i: "i < Suc n" for i
  proof (cases "i = n")
    case True
    have "null_bits w ! n = (?idx \<noteq> - 1 \<and> ?valid \<and> m1 ! ?pos \<noteq> 1)"
      using n_in by (simp add: res_w)
    then show ?thesis
      unfolding True using seen by blast
  next
    case False
    then have "i < n" using i by simp
    then show ?thesis
      using w1 [of i] False by (simp add: res_w)
  qed
  have c6: "null_bits w ! i = null_bits w0 ! i" if "i \<ge> Suc n" for i
    using that w1' [of i] by (simp add: res_w)
  show ?case
    apply (intro conjI allI impI)
         apply (rule c1)
        apply (rule c2)
       apply (rule c3, assumption)
      apply (rule c4, assumption)
     apply (rule c5, assumption)
    apply (rule c6, assumption)
    done
qed

lemma local_pass_skipped:
  assumes len_w: "n \<le> length (null_bits w0)"
    and run: "fold (local_row oper True cat ic M jj) [0..<n] (w0, c0, m0) = (w, c, m)"
  shows "length (null_bits w) = length (null_bits w0) \<and> m = m0
     \<and> (\<forall>i. i < n \<longrightarrow> null_bits w ! i = (elems cat ! i \<noteq> - 1 \<and> null_bits ic ! i))
     \<and> (\<forall>i. n \<le> i \<longrightarrow> null_bits w ! i = null_bits w0 ! i)"
  using len_w run
proof (induction n arbitrary: w c m)
  case 0
  then show ?case by simp
next
  case (Suc n)
  obtain w1 c1 m1 where r1: "fold (local_row oper True cat ic M jj) [0..<n] (w0, c0, m0) = (w1, c1, m1)"
    by (cases "fold (local_row oper True cat ic M jj) [0..<n] (w0, c0, m0)")
  have lw: "n \<le> length (null_bits w0)" using Suc.prems(1) by simp
  note ih = Suc.IH [OF lw r1]
  have lw1: "length (null_bits w1) = length (null_bits w0)"
    by (rule ih [THEN conjunct1])
  have m1: "m1 = m0"
    by (rule ih [THEN conjunct2, THEN conjunct1])
  have w1: "\<And>i. i < n \<Longrightarrow> null_bits w1 ! i = (elems cat ! i \<noteq> - 1 \<and> null_bits ic ! i)"
    by (rule ih [THEN conjunct2, THEN conjunct2, THEN conjunct1, rule_format])
  have w1': "\<And>i. i \<ge> n \<Longrightarrow> null_bits w1 ! i = null_bits w0 ! i"
    by (rule ih [THEN conjunct2, THEN conjunct2, THEN conjunct2, rule_format])
  have step: "local_row oper True cat ic M jj n (w1, c1, m1) = (w, c, m)"
    using Suc.prems(2) r1 by simp
  have n_in: "n < length (null_bits w1)"
    using Suc.prems(1) lw1 by simp
  have res_w: "null_bits w = (null_bits w1)[n := (elems cat ! n \<noteq> - 1 \<and> null_bits ic ! n)]"
    using step by (auto simp add: local_row_def set_null_bit_def Let_def split: if_splits)
  have res_m: "m = m1"
    using step by (auto simp add: local_row_def set_null_bit_def Let_def split: if_splits)
  have c1: "length (null_bits w) = length (null_bits w0)"
    using lw1 by (simp add: res_w)
  have c3: "null_bits w ! i = (elems cat ! i \<noteq> - 1 \<and> null_bits ic ! i)" if "i < Suc n" for i
  proof (cases "i = n")
    case True
    then show ?thesis using n_in by (simp add: res_w)
  next
    case False
    then have "i < n" using that by simp
    then show ?thesis using w1 [of i] False by (simp add: res_w)
  qed
  have c4: "null_bits w ! i = null_bits w0 ! i" if "i \<ge> Suc n" for i
    using that w1' [of i] by (simp add: res_w)
  show ?case
    apply (intro conjI allI impI)
       apply (rule c1)
      apply (simp add: res_m m1)
     apply (rule c3, assumption)
    apply (rule c4, assumption)
    done
qed

lemma final_pass:
  assumes len_w: "n \<le> length (null_bits w0)"
  shows "length (null_bits (fold (final_row oper skip cat M jj recv mask_recv) [0..<n] w0))
           = length (null_bits w0)
     \<and> (\<forall>i. null_bits (fold (final_row oper skip cat M jj recv mask_recv) [0..<n] w0) ! i =
           (if i < n \<and> elems cat ! i \<noteq> - 1 \<and> \<not> skip
               \<and> mask_recv ! (nat (elems cat ! i) + M * jj) = 1
            then False else null_bits w0 ! i))"
  using len_w
proof (induction n)
  case 0
  then show ?case by simp
next
  case (Suc n)
  let ?w1 = "fold (final_row oper skip cat M jj recv mask_recv) [0..<n] w0"
  let ?w = "final_row oper skip cat M jj recv mask_recv n ?w1"
  have eq: "fold (final_row oper skip cat M jj recv mask_recv) [0..<Suc n] w0 = ?w"
    by simp
  have lw: "n \<le> length (null_bits w0)" using Suc.prems by simp
  note ih = Suc.IH [OF lw]
  have lw1: "length (null_bits ?w1) = length (null_bits w0)"
    by (rule ih [THEN conjunct1])
  have w1: "\<And>i. null_bits ?w1 ! i =
           (if i < n \<and> elems cat ! i \<noteq> - 1 \<and> \<not> skip
               \<and> mask_recv ! (nat (elems cat ! i) + M * jj) = 1
            then False else null_bits w0 ! i)"
    by (rule ih [THEN conjunct2, rule_format])
  have n_in: "n < length (null_bits ?w1)"
    using Suc.prems lw1 by simp
  have res: "null_bits ?w =
      (if elems cat ! n \<noteq> - 1 \<and> \<not> skip \<and> mask_recv ! (nat (elems cat ! n) + M * jj) = 1
       then (null_bits ?w1)[n := False] else null_bits ?w1)"
    by (simp add: final_row_def set_null_bit_def Let_def)
  have c1: "length (null_bits ?w) = length (null_bits w0)"
    unfolding res using lw1 by (cases skip) simp_all
  have c2: "null_bits ?w ! i =
           (if i < Suc n \<and> elems cat ! i \<noteq> - 1 \<and> \<not> skip
               \<and> mask_recv ! (nat (elems cat ! i) + M * jj) = 1
            then False else null_bits w0 ! i)" for i
  proof (cases "i = n")
    case True
    show ?thesis
      unfolding res True using n_in w1 [of n] by (cases skip) simp_all
  next
    case False
    then have "(i < Suc n) = (i < n)" by auto
    then show ?thesis
      unfolding res using w1 [of i] False by (cases skip) simp_all
  qed
  show ?case
    unfolding eq
    apply (intro conjI allI)
     apply (rule c1)
    apply (rule c2)
    done
qed

lemma slot_unique:
  assumes "a < (M::nat)" "g < M" "a + M * d = g + M * jj"
  shows "d = jj \<and> a = g"
proof -
  have "(a + M * d) div M = d" using assms(1) by simp
  moreover have "(g + M * jj) div M = jj" using assms(2) by simp
  ultimately have "d = jj" using assms(3) by simp
  then show ?thesis using assms(3) by simp
qed

lemma byte_max_one:
  assumes "a = 0 \<or> a = (1::byte)" "b = 0 \<or> b = 1"
  shows "(max a b = 1) = (a = 1 \<or> b = 1)" "max a b = 0 \<or> max a b = 1"
  using assms by (auto simp add: max_def)

lemma combine_max_spec:
  assumes "length b = L" "\<forall>x \<in> set bs. length x = L"
    and "\<forall>p<L. b ! p = 0 \<or> b ! p = (1::byte)"
    and "\<forall>x \<in> set bs. \<forall>p<L. x ! p = 0 \<or> x ! p = 1"
  shows "length (foldl (\<lambda>acc buf. map2 max acc buf) b bs) = L
     \<and> (\<forall>p<L. (foldl (\<lambda>acc buf. map2 max acc buf) b bs ! p = 1)
                  = (b ! p = 1 \<or> (\<exists>x \<in> set bs. x ! p = 1)))"
  using assms
proof (induction bs arbitrary: b)
  case Nil
  then show ?case by simp
next
  case (Cons x xs)
  let ?b = "map2 max b x"
  have lx: "length x = L" using Cons.prems(2) by simp
  have l: "length ?b = L" using Cons.prems(1) lx by simp
  have nth: "?b ! p = max (b ! p) (x ! p)" if "p < L" for p
    using that Cons.prems(1) lx by simp
  have bx: "x ! p = 0 \<or> x ! p = 1" if "p < L" for p
    using that Cons.prems(4) by simp
  have bb: "b ! p = 0 \<or> b ! p = 1" if "p < L" for p
    using that Cons.prems(3) by simp
  have v: "\<forall>p<L. ?b ! p = 0 \<or> ?b ! p = 1"
    using byte_max_one(2) [OF bb bx] nth by simp
  have one: "(?b ! p = 1) = (b ! p = 1 \<or> x ! p = 1)" if "p < L" for p
    using byte_max_one(1) [OF bb [OF that] bx [OF that]] nth [OF that] by simp
  have xs1: "\<forall>y \<in> set xs. length y = L" using Cons.prems(2) by simp
  have xs2: "\<forall>y \<in> set xs. \<forall>p<L. y ! p = 0 \<or> y ! p = 1" using Cons.prems(4) by simp
  note ih = Cons.IH [OF l xs1 v xs2]
  have r1: "length (foldl (\<lambda>acc buf. map2 max acc buf) ?b xs) = L"
    by (rule ih [THEN conjunct1])
  have r2: "(foldl (\<lambda>acc buf. map2 max acc buf) ?b xs ! p = 1)
                  = (?b ! p = 1 \<or> (\<exists>y \<in> set xs. y ! p = 1))" if "p < L" for p
    using ih [THEN conjunct2, rule_format, OF that] .
  have c2: "(foldl (\<lambda>acc buf. map2 max acc buf) ?b xs ! p = 1)
                  = (b ! p = 1 \<or> (\<exists>y \<in> set (x # xs). y ! p = 1))" if "p < L" for p
    using r2 [OF that] one [OF that] by auto
  show ?case
    apply (simp only: foldl_Cons)
    apply (intro conjI allI impI)
     apply (rule r1)
    apply (rule c2, assumption)
    done
qed

lemma exscan_mask_spec:
  assumes lens: "\<forall>x \<in> set masks. length x = M * n_oper"
    and vals: "\<forall>x \<in> set masks. \<forall>p<M * n_oper. x ! p = 0 \<or> x ! p = 1"
    and r: "r < length masks" and p: "p < M * n_oper"
  shows "(exscan_mask M n_oper masks ! r ! p = 1) = (\<exists>r'<r. masks ! r' ! p = 1)"
proof (cases "r = 0")
  case True
  then show ?thesis using r p by (simp add: exscan_mask_def MPI_Exscan_def)
next
  case False
  then obtain r0 where r0: "r = Suc r0" by (cases r) auto
  have tk: "take r masks = hd masks # tl (take r masks)"
    using r r0 by (cases masks) auto
  have ne: "take r masks \<noteq> []" using r r0 by (cases masks) auto
  have sub: "set (take r masks) \<subseteq> set masks" by (rule set_take_subset)
  have mp: "map (take (M * n_oper)) (take r masks) = take r masks"
    using lens sub by (auto intro!: map_idI)
  have hd_in: "hd (take r masks) \<in> set masks" using ne sub by (meson hd_in_set subsetD)
  have tl_in: "set (tl (take r masks)) \<subseteq> set masks"
    using sub by (meson list.set_sel(2) ne subsetD subsetI)
  have a1: "length (hd (take r masks)) = M * n_oper" using lens hd_in by simp
  have a2: "\<forall>x \<in> set (tl (take r masks)). length x = M * n_oper" using lens tl_in by auto
  have a3: "\<forall>q<M * n_oper. hd (take r masks) ! q = 0 \<or> hd (take r masks) ! q = 1"
    using vals hd_in by simp
  have a4: "\<forall>x \<in> set (tl (take r masks)). \<forall>q<M * n_oper. x ! q = 0 \<or> x ! q = 1"
    using vals tl_in by auto
  note spec = combine_max_spec [OF a1 a2 a3 a4]
  have len: "length (exscan_combine max (take r masks)) = M * n_oper"
    unfolding exscan_combine_def by (rule spec [THEN conjunct1])
  have val: "(exscan_combine max (take r masks) ! p = 1)
       = (hd (take r masks) ! p = 1 \<or> (\<exists>x \<in> set (tl (take r masks)). x ! p = 1))"
    unfolding exscan_combine_def by (rule spec [THEN conjunct2, rule_format, OF p])
  have "(hd (take r masks) ! p = 1 \<or> (\<exists>x \<in> set (tl (take r masks)). x ! p = 1))
       = (\<exists>x \<in> set (take r masks). x ! p = 1)"
    using ne by (cases "take r masks") auto
  also have "\<dots> = (\<exists>r'<r. masks ! r' ! p = 1)"
  proof -
    have "x \<in> set (take r masks) \<longleftrightarrow> (\<exists>r'<r. x = masks ! r')" for x
      using r by (fastforce simp add: in_set_conv_nth)
    then show ?thesis by auto
  qed
  finally have ex: "(exscan_combine max (take r masks) ! p = 1) = (\<exists>r'<r. masks ! r' ! p = 1)"
    using val by simp
  have res: "exscan_mask M n_oper masks ! r = exscan_combine max (take r masks)"
    using r False by (simp add: exscan_mask_def MPI_Exscan_def mp)
  show ?thesis unfolding res by (rule ex)
qed

lemma oper_of_None: "oper_of T f = None \<Longrightarrow> \<not> is_cumulative f"
  by (auto simp add: is_cumulative_def oper_of_def split: if_splits)

lemma slice_in_range:
  assumes "g < (M::nat)" "jj < D"
  shows "g + M * jj < M * D"
proof -
  have "M * Suc jj \<le> M * D" using assms(2) by (intro mult_le_mono2) simp
  then show ?thesis using assms(1) by simp
qed

lemma local_phase_not_skipped:
  assumes ok: "codes_ok cat M n"
    and lens: "\<forall>jj<D. start + jj < length arrs0 \<and> n \<le> length (null_bits (arrs0 ! (start + jj)))"
    and lm: "length m0 = M * D" and zero: "\<forall>p<M * D. m0 ! p = 0"
    and d: "d \<le> D"
    and run: "fold (local_phase_step T ftypes start False cat ic M n) [start..<start + d]
                (arrs0, c0, m0) = (arrs, c, m)"
  shows "length arrs = length arrs0 \<and> length m = M * D
     \<and> (\<forall>p<M * D. m ! p = 0 \<or> m ! p = 1)
     \<and> (\<forall>jj g. jj < d \<longrightarrow> g < M \<longrightarrow> is_cumulative (ftypes ! (start + jj)) \<longrightarrow>
           (m ! (g + M * jj) = 1) = (\<exists>i<n. elems cat ! i = int g \<and> \<not> null_bits ic ! i))
     \<and> (\<forall>jj g. d \<le> jj \<longrightarrow> jj < D \<longrightarrow> g < M \<longrightarrow> m ! (g + M * jj) = 0)
     \<and> (\<forall>jj i. jj < d \<longrightarrow> i < n \<longrightarrow> is_cumulative (ftypes ! (start + jj)) \<longrightarrow>
           null_bits (arrs ! (start + jj)) ! i =
             (elems cat ! i \<noteq> - 1 \<and> null_bits ic ! i
              \<and> \<not> null_seen cat ic (elems cat ! i) i))
     \<and> (\<forall>jj<D. length (null_bits (arrs ! (start + jj)))
                  = length (null_bits (arrs0 ! (start + jj))))
     \<and> (\<forall>jj. d \<le> jj \<longrightarrow> arrs ! (start + jj) = arrs0 ! (start + jj))"
  using d run
proof (induction d arbitrary: arrs c m)
  case 0
  have z: "m0 ! (g + M * jj) = 0" if "jj < D" "g < M" for jj g
    using zero slice_in_range [OF that(2,1)] by simp
  have e: "arrs = arrs0" "m = m0" using 0 by simp_all
  show ?case unfolding e using lm zero z by simp
next
  case (Suc d)
  let ?F = "local_phase_step T ftypes start False cat ic M n"
  obtain arrs1 c1 m1 where r1: "fold ?F [start..<start + d] (arrs0, c0, m0) = (arrs1, c1, m1)"
    by (cases "fold ?F [start..<start + d] (arrs0, c0, m0)")
  have dD: "d \<le> D" and dD': "d < D" using Suc.prems(1) by simp_all
  note ih = Suc.IH [OF dD r1]
  have la1: "length arrs1 = length arrs0"
    by (rule ih [THEN conjunct1])
  have lm1: "length m1 = M * D"
    by (rule ih [THEN conjunct2, THEN conjunct1])
  have v1: "\<And>p. p < M * D \<Longrightarrow> m1 ! p = 0 \<or> m1 ! p = 1"
    by (rule ih [THEN conjunct2, THEN conjunct2, THEN conjunct1, rule_format])
  have s1: "\<And>jj g. jj < d \<Longrightarrow> g < M \<Longrightarrow> is_cumulative (ftypes ! (start + jj)) \<Longrightarrow>
           (m1 ! (g + M * jj) = 1) = (\<exists>i<n. elems cat ! i = int g \<and> \<not> null_bits ic ! i)"
    by (rule ih [THEN conjunct2, THEN conjunct2, THEN conjunct2, THEN conjunct1, rule_format])
  have z1: "\<And>jj g. d \<le> jj \<Longrightarrow> jj < D \<Longrightarrow> g < M \<Longrightarrow> m1 ! (g + M * jj) = 0"
    by (rule ih [THEN conjunct2, THEN conjunct2, THEN conjunct2, THEN conjunct2,
          THEN conjunct1, rule_format])
  have w1: "\<And>jj i. jj < d \<Longrightarrow> i < n \<Longrightarrow> is_cumulative (ftypes ! (start + jj)) \<Longrightarrow>
           null_bits (arrs1 ! (start + jj)) ! i =
             (elems cat ! i \<noteq> - 1 \<and> null_bits ic ! i
              \<and> \<not> null_seen cat ic (elems cat ! i) i)"
    by (rule ih [THEN conjunct2, THEN conjunct2, THEN conjunct2, THEN conjunct2,
          THEN conjunct2, THEN conjunct1, rule_format])
  have l1: "\<And>jj. jj < D \<Longrightarrow> length (null_bits (arrs1 ! (start + jj)))
                  = length (null_bits (arrs0 ! (start + jj)))"
    by (rule ih [THEN conjunct2, THEN conjunct2, THEN conjunct2, THEN conjunct2,
          THEN conjunct2, THEN conjunct2, THEN conjunct1, rule_format])
  have u1: "\<And>jj. d \<le> jj \<Longrightarrow> arrs1 ! (start + jj) = arrs0 ! (start + jj)"
    by (rule ih [THEN conjunct2, THEN conjunct2, THEN conjunct2, THEN conjunct2,
          THEN conjunct2, THEN conjunct2, THEN conjunct2, rule_format])
  have step: "?F (start + d) (arrs1, c1, m1) = (arrs, c, m)"
    using Suc.prems(2) r1 by simp
  show ?case
  proof (cases "oper_of T (ftypes ! (start + d))")
    case None
    have same: "arrs = arrs1" "m = m1"
      using step None by (simp_all add: local_phase_step_def)
    have nc: "\<not> is_cumulative (ftypes ! (start + d))"
      using None by (rule oper_of_None)
    have c4: "(m1 ! (g + M * jj) = 1) = (\<exists>i<n. elems cat ! i = int g \<and> \<not> null_bits ic ! i)"
      if "jj < Suc d" "g < M" "is_cumulative (ftypes ! (start + jj))" for jj g
    proof -
      have "jj \<noteq> d" using that(3) nc by auto
      then have "jj < d" using that(1) by simp
      then show ?thesis using s1 that by simp
    qed
    have c6: "null_bits (arrs1 ! (start + jj)) ! i =
             (elems cat ! i \<noteq> - 1 \<and> null_bits ic ! i
              \<and> \<not> null_seen cat ic (elems cat ! i) i)"
      if "jj < Suc d" "i < n" "is_cumulative (ftypes ! (start + jj))" for jj i
    proof -
      have "jj \<noteq> d" using that(3) nc by auto
      then have "jj < d" using that(1) by simp
      then show ?thesis using w1 that by simp
    qed
    show ?thesis
      unfolding same
      apply (intro conjI allI impI)
             apply (rule la1)
            apply (rule lm1)
           apply (rule v1, assumption)
          apply (rule c4, assumption+)
         apply (rule z1, simp, assumption+)
        apply (rule c6, assumption+)
       apply (rule l1, assumption)
      apply (rule u1, simp)
      done
  next
    case (Some oper)
    let ?j = "start + d"
    obtain w c' m' where loc: "fold (local_row oper False cat ic M d) [0..<n]
        (arrs1 ! ?j, c1, m1) = (w, c', m')"
      by (cases "fold (local_row oper False cat ic M d) [0..<n] (arrs1 ! ?j, c1, m1)")
    have res: "arrs = arrs1[?j := w]" "m = m'"
      using step Some loc by (simp_all add: local_phase_step_def)
    have j_in: "?j < length arrs1" using lens dD' la1 by simp
    have a0: "arrs1 ! ?j = arrs0 ! ?j" using u1 [of d] by simp
    have len_w: "n \<le> length (null_bits (arrs1 ! ?j))" using lens dD' a0 by simp
    have len_m: "M * Suc d \<le> length m1"
    proof -
      have "Suc d \<le> D" using dD' by simp
      then have "M * Suc d \<le> M * D" by (rule mult_le_mono2)
      then show ?thesis using lm1 by simp
    qed
    note L = local_pass_not_skipped [OF ok len_w len_m loc]
    have Lw: "length (null_bits w) = length (null_bits (arrs1 ! ?j))"
      by (rule L [THEN conjunct1])
    have Lm: "length m' = length m1"
      by (rule L [THEN conjunct2, THEN conjunct1])
    have Ls: "\<And>p. p < length m1 \<Longrightarrow> (m' ! p = 1) =
           (m1 ! p = 1 \<or> (\<exists>i<n. elems cat ! i \<noteq> - 1 \<and> nat (elems cat ! i) + M * d = p
                               \<and> \<not> null_bits ic ! i))"
      by (rule L [THEN conjunct2, THEN conjunct2, THEN conjunct1, rule_format])
    have Lk: "\<And>p. p < length m1 \<Longrightarrow> m' ! p = m1 ! p \<or> m' ! p = 1"
      by (rule L [THEN conjunct2, THEN conjunct2, THEN conjunct2, THEN conjunct1, rule_format])
    have Lb: "\<And>i. i < n \<Longrightarrow> null_bits w ! i =
           (elems cat ! i \<noteq> - 1 \<and> null_bits ic ! i
            \<and> m1 ! (nat (elems cat ! i) + M * d) \<noteq> 1
            \<and> \<not> null_seen cat ic (elems cat ! i) i)"
      by (rule L [THEN conjunct2, THEN conjunct2, THEN conjunct2, THEN conjunct2,
            THEN conjunct1, rule_format])
    have in_slice: "p < M * D" if "g < M" "jj < D" "p = g + M * jj" for p g jj
    proof -
      have "M * Suc jj \<le> M * D" using that(2) by (intro mult_le_mono2) simp
      then show ?thesis using that(1,3) by simp
    qed
    have other: "m' ! (g + M * jj) = m1 ! (g + M * jj)" if "g < M" "jj < D" "jj \<noteq> d" for g jj
    proof -
      have p: "g + M * jj < length m1" using in_slice [OF that(1,2) refl] lm1 by simp
      have no: "\<not> (\<exists>i<n. elems cat ! i \<noteq> - 1 \<and> nat (elems cat ! i) + M * d = g + M * jj
                               \<and> \<not> null_bits ic ! i)"
      proof
        assume "\<exists>i<n. elems cat ! i \<noteq> - 1 \<and> nat (elems cat ! i) + M * d = g + M * jj
                               \<and> \<not> null_bits ic ! i"
        then obtain i where i: "i < n" "elems cat ! i \<noteq> - 1"
          "nat (elems cat ! i) + M * d = g + M * jj" by blast
        have "nat (elems cat ! i) < M" using codes_okD [OF ok i(1,2)] by simp
        from slot_unique [OF this that(1) i(3)] that(3) show False by simp
      qed
      from Ls [OF p] no have "(m' ! (g + M * jj) = 1) = (m1 ! (g + M * jj) = 1)" by simp
      with Lk [OF p] show ?thesis by auto
    qed
    have c3: "m' ! p = 0 \<or> m' ! p = 1" if "p < M * D" for p
      using Lk [of p] v1 [OF that] that lm1 by auto
    have here: "(m' ! (g + M * d) = 1) = (\<exists>i<n. elems cat ! i = int g \<and> \<not> null_bits ic ! i)"
      if "g < M" for g
    proof -
      have p: "g + M * d < length m1" using in_slice [OF that dD' refl] lm1 by simp
      have z: "m1 ! (g + M * d) \<noteq> 1" using z1 [of d g] dD' that by simp
      have "(\<exists>i<n. elems cat ! i \<noteq> - 1 \<and> nat (elems cat ! i) + M * d = g + M * d
                               \<and> \<not> null_bits ic ! i)
          = (\<exists>i<n. elems cat ! i = int g \<and> \<not> null_bits ic ! i)"
      proof (intro iffI)
        assume "\<exists>i<n. elems cat ! i \<noteq> - 1 \<and> nat (elems cat ! i) + M * d = g + M * d
                               \<and> \<not> null_bits ic ! i"
        then obtain i where i: "i < n" "elems cat ! i \<noteq> - 1"
          "nat (elems cat ! i) + M * d = g + M * d" "\<not> null_bits ic ! i" by blast
        have "0 \<le> elems cat ! i" using codes_okD [OF ok i(1,2)] by simp
        then have "elems cat ! i = int g" using i(3) by simp
        then show "\<exists>i<n. elems cat ! i = int g \<and> \<not> null_bits ic ! i" using i(1,4) by blast
      next
        assume "\<exists>i<n. elems cat ! i = int g \<and> \<not> null_bits ic ! i"
        then obtain i where i: "i < n" "elems cat ! i = int g" "\<not> null_bits ic ! i" by blast
        have "elems cat ! i \<noteq> - 1 \<and> nat (elems cat ! i) + M * d = g + M * d"
          using i(2) by simp
        then show "\<exists>i<n. elems cat ! i \<noteq> - 1 \<and> nat (elems cat ! i) + M * d = g + M * d
                               \<and> \<not> null_bits ic ! i" using i(1,3) by blast
      qed
      then show ?thesis using Ls [OF p] z by simp
    qed
    have c4: "(m' ! (g + M * jj) = 1) = (\<exists>i<n. elems cat ! i = int g \<and> \<not> null_bits ic ! i)"
      if "jj < Suc d" "g < M" "is_cumulative (ftypes ! (start + jj))" for jj g
    proof (cases "jj = d")
      case True
      then show ?thesis using here [OF that(2)] by simp
    next
      case False
      then have lt: "jj < d" using that(1) by simp
      then have "jj < D" using dD' by simp
      from other [OF that(2) this False] s1 [OF lt that(2,3)] show ?thesis by simp
    qed
    have c5: "m' ! (g + M * jj) = 0" if "Suc d \<le> jj" "jj < D" "g < M" for jj g
    proof -
      have "jj \<noteq> d" "d \<le> jj" using that(1) by simp_all
      from other [OF that(3,2) this(1)] z1 [OF this(2) that(2,3)] show ?thesis by simp
    qed
    have nth_other: "arrs1[?j := w] ! (start + jj) = arrs1 ! (start + jj)" if "jj \<noteq> d" for jj
      using that by simp
    have nth_here: "arrs1[?j := w] ! ?j = w" using j_in by simp
    have c6: "null_bits (arrs1[?j := w] ! (start + jj)) ! i =
             (elems cat ! i \<noteq> - 1 \<and> null_bits ic ! i
              \<and> \<not> null_seen cat ic (elems cat ! i) i)"
      if "jj < Suc d" "i < n" "is_cumulative (ftypes ! (start + jj))" for jj i
    proof (cases "jj = d")
      case True
      have z: "elems cat ! i \<noteq> - 1 \<Longrightarrow> m1 ! (nat (elems cat ! i) + M * d) \<noteq> 1"
      proof -
        assume "elems cat ! i \<noteq> - 1"
        then have "nat (elems cat ! i) < M" using codes_okD [OF ok that(2)] by simp
        then show ?thesis using z1 [of d "nat (elems cat ! i)"] dD' by simp
      qed
      show ?thesis unfolding True nth_here using Lb [OF that(2)] z by auto
    next
      case False
      then have lt: "jj < d" using that(1) by simp
      show ?thesis unfolding nth_other [OF False] by (rule w1 [OF lt that(2,3)])
    qed
    have c7: "length (null_bits (arrs1[?j := w] ! (start + jj)))
                  = length (null_bits (arrs0 ! (start + jj)))" if "jj < D" for jj
    proof (cases "jj = d")
      case True
      show ?thesis unfolding True nth_here using Lw a0 by simp
    next
      case False
      show ?thesis unfolding nth_other [OF False] by (rule l1 [OF that])
    qed
    have c8: "arrs1[?j := w] ! (start + jj) = arrs0 ! (start + jj)" if "Suc d \<le> jj" for jj
    proof -
      have "jj \<noteq> d" "d \<le> jj" using that by simp_all
      then show ?thesis using nth_other [of jj] u1 [of jj] by simp
    qed
    show ?thesis
      unfolding res
      apply (intro conjI allI impI)
             apply (simp add: la1)
            apply (simp add: Lm lm1)
           apply (rule c3, assumption)
          apply (rule c4, assumption+)
         apply (rule c5, assumption+)
        apply (rule c6, assumption+)
       apply (rule c7, assumption)
      apply (rule c8, assumption)
      done
  qed
qed

lemma local_phase_skipped:
  assumes lens: "\<forall>jj<D. start + jj < length arrs0 \<and> n \<le> length (null_bits (arrs0 ! (start + jj)))"
    and d: "d \<le> D"
    and run: "fold (local_phase_step T ftypes start True cat ic M n) [start..<start + d]
                (arrs0, c0, m0) = (arrs, c, m)"
  shows "length arrs = length arrs0 \<and> m = m0
     \<and> (\<forall>jj i. jj < d \<longrightarrow> i < n \<longrightarrow> is_cumulative (ftypes ! (start + jj)) \<longrightarrow>
           null_bits (arrs ! (start + jj)) ! i = (elems cat ! i \<noteq> - 1 \<and> null_bits ic ! i))
     \<and> (\<forall>jj<D. length (null_bits (arrs ! (start + jj)))
                  = length (null_bits (arrs0 ! (start + jj))))
     \<and> (\<forall>jj. d \<le> jj \<longrightarrow> arrs ! (start + jj) = arrs0 ! (start + jj))"
  using d run
proof (induction d arbitrary: arrs c m)
  case 0
  then show ?case by simp
next
  case (Suc d)
  let ?F = "local_phase_step T ftypes start True cat ic M n"
  obtain arrs1 c1 m1 where r1: "fold ?F [start..<start + d] (arrs0, c0, m0) = (arrs1, c1, m1)"
    by (cases "fold ?F [start..<start + d] (arrs0, c0, m0)")
  have dD: "d \<le> D" and dD': "d < D" using Suc.prems(1) by simp_all
  note ih = Suc.IH [OF dD r1]
  have la1: "length arrs1 = length arrs0"
    by (rule ih [THEN conjunct1])
  have m1: "m1 = m0"
    by (rule ih [THEN conjunct2, THEN conjunct1])
  have w1: "\<And>jj i. jj < d \<Longrightarrow> i < n \<Longrightarrow> is_cumulative (ftypes ! (start + jj)) \<Longrightarrow>
           null_bits (arrs1 ! (start + jj)) ! i = (elems cat ! i \<noteq> - 1 \<and> null_bits ic ! i)"
    by (rule ih [THEN conjunct2, THEN conjunct2, THEN conjunct1, rule_format])
  have l1: "\<And>jj. jj < D \<Longrightarrow> length (null_bits (arrs1 ! (start + jj)))
                  = length (null_bits (arrs0 ! (start + jj)))"
    by (rule ih [THEN conjunct2, THEN conjunct2, THEN conjunct2, THEN conjunct1, rule_format])
  have u1: "\<And>jj. d \<le> jj \<Longrightarrow> arrs1 ! (start + jj) = arrs0 ! (start + jj)"
    by (rule ih [THEN conjunct2, THEN conjunct2, THEN conjunct2, THEN conjunct2, rule_format])
  have step: "?F (start + d) (arrs1, c1, m1) = (arrs, c, m)"
    using Suc.prems(2) r1 by simp
  show ?case
  proof (cases "oper_of T (ftypes ! (start + d))")
    case None
    have same: "arrs = arrs1" "m = m1"
      using step None by (simp_all add: local_phase_step_def)
    have nc: "\<not> is_cumulative (ftypes ! (start + d))"
      using None by (rule oper_of_None)
    have c3: "null_bits (arrs1 ! (start + jj)) ! i = (elems cat ! i \<noteq> - 1 \<and> null_bits ic ! i)"
      if "jj < Suc d" "i < n" "is_cumulative (ftypes ! (start + jj))" for jj i
    proof -
      have "jj \<noteq> d" using that(3) nc by auto
      then have "jj < d" using that(1) by simp
      then show ?thesis using w1 that by simp
    qed
    show ?thesis
      unfolding same
      apply (intro conjI allI impI)
          apply (rule la1)
         apply (rule m1)
        apply (rule c3, assumption+)
       apply (rule l1, assumption)
      apply (rule u1, simp)
      done
  next
    case (Some oper)
    let ?j = "start + d"
    obtain w c' m' where loc: "fold (local_row oper True cat ic M d) [0..<n]
        (arrs1 ! ?j, c1, m1) = (w, c', m')"
      by (cases "fold (local_row oper True cat ic M d) [0..<n] (arrs1 ! ?j, c1, m1)")
    have res: "arrs = arrs1[?j := w]" "m = m'"
      using step Some loc by (simp_all add: local_phase_step_def)
    have j_in: "?j < length arrs1" using lens dD' la1 by simp
    have a0: "arrs1 ! ?j = arrs0 ! ?j" using u1 [of d] by simp
    have len_w: "n \<le> length (null_bits (arrs1 ! ?j))" using lens dD' a0 by simp
    note L = local_pass_skipped [OF len_w loc]
    have Lw: "length (null_bits w) = length (null_bits (arrs1 ! ?j))"
      by (rule L [THEN conjunct1])
    have Lm: "m' = m1"
      by (rule L [THEN conjunct2, THEN conjunct1])
    have Lb: "\<And>i. i < n \<Longrightarrow> null_bits w ! i = (elems cat ! i \<noteq> - 1 \<and> null_bits ic ! i)"
      by (rule L [THEN conjunct2, THEN conjunct2, THEN conjunct1, rule_format])
    have nth_other: "arrs1[?j := w] ! (start + jj) = arrs1 ! (start + jj)" if "jj \<noteq> d" for jj
      using that by simp
    have nth_here: "arrs1[?j := w] ! ?j = w" using j_in by simp
    have c3: "null_bits (arrs1[?j := w] ! (start + jj)) ! i =
             (elems cat ! i \<noteq> - 1 \<and> null_bits ic ! i)"
      if "jj < Suc d" "i < n" "is_cumulative (ftypes ! (start + jj))" for jj i
    proof (cases "jj = d")
      case True
      show ?thesis unfolding True nth_here by (rule Lb [OF that(2)])
    next
      case False
      then have lt: "jj < d" using that(1) by simp
      show ?thesis unfolding nth_other [OF False] by (rule w1 [OF lt that(2,3)])
    qed
    have c4: "length (null_bits (arrs1[?j := w] ! (start + jj)))
                  = length (null_bits (arrs0 ! (start + jj)))" if "jj < D" for jj
    proof (cases "jj = d")
      case True
      show ?thesis unfolding True nth_here using Lw a0 by simp
    next
      case False
      show ?thesis unfolding nth_other [OF False] by (rule l1 [OF that])
    qed
    have c5: "arrs1[?j := w] ! (start + jj) = arrs0 ! (start + jj)" if "Suc d \<le> jj" for jj
    proof -
      have "jj \<noteq> d" "d \<le> jj" using that by simp_all
      then show ?thesis using nth_other [of jj] u1 [of jj] by simp
    qed
    show ?thesis
      unfolding res
      apply (intro conjI allI impI)
          apply (simp add: la1)
         apply (simp add: Lm m1)
        apply (rule c3, assumption+)
       apply (rule c4, assumption)
      apply (rule c5, assumption)
      done
  qed
qed

lemma final_phase_bits:
  assumes lens: "\<forall>jj<D. start + jj < length arrs0 \<and> n \<le> length (null_bits (arrs0 ! (start + jj)))"
    and d: "d \<le> D"
  shows "length (fold (final_phase_step T ftypes start skip cat M n recv mask_recv)
                   [start..<start + d] arrs0) = length arrs0
     \<and> (\<forall>jj i. jj < d \<longrightarrow> is_cumulative (ftypes ! (start + jj)) \<longrightarrow>
           null_bits (fold (final_phase_step T ftypes start skip cat M n recv mask_recv)
                        [start..<start + d] arrs0 ! (start + jj)) ! i =
             (if i < n \<and> elems cat ! i \<noteq> - 1 \<and> \<not> skip
                 \<and> mask_recv ! (nat (elems cat ! i) + M * jj) = 1
              then False else null_bits (arrs0 ! (start + jj)) ! i))
     \<and> (\<forall>jj. d \<le> jj \<longrightarrow>
           fold (final_phase_step T ftypes start skip cat M n recv mask_recv)
             [start..<start + d] arrs0 ! (start + jj) = arrs0 ! (start + jj))"
  using d
proof (induction d)
  case 0
  then show ?case by simp
next
  case (Suc d)
  let ?F = "final_phase_step T ftypes start skip cat M n recv mask_recv"
  let ?a1 = "fold ?F [start..<start + d] arrs0"
  let ?j = "start + d"
  have eq: "fold ?F [start..<start + Suc d] arrs0 = ?F ?j ?a1" by simp
  have dD: "d \<le> D" and dD': "d < D" using Suc.prems by simp_all
  note ih = Suc.IH [OF dD]
  have la1: "length ?a1 = length arrs0"
    by (rule ih [THEN conjunct1])
  have w1: "\<And>jj i. jj < d \<Longrightarrow> is_cumulative (ftypes ! (start + jj)) \<Longrightarrow>
           null_bits (?a1 ! (start + jj)) ! i =
             (if i < n \<and> elems cat ! i \<noteq> - 1 \<and> \<not> skip
                 \<and> mask_recv ! (nat (elems cat ! i) + M * jj) = 1
              then False else null_bits (arrs0 ! (start + jj)) ! i)"
    by (rule ih [THEN conjunct2, THEN conjunct1, rule_format])
  have u1: "\<And>jj. d \<le> jj \<Longrightarrow> ?a1 ! (start + jj) = arrs0 ! (start + jj)"
    by (rule ih [THEN conjunct2, THEN conjunct2, rule_format])
  show ?case
  proof (cases "oper_of T (ftypes ! ?j)")
    case None
    have same: "?F ?j ?a1 = ?a1"
      using None by (simp add: final_phase_step_def)
    have nc: "\<not> is_cumulative (ftypes ! ?j)"
      using None by (rule oper_of_None)
    have c2: "null_bits (?a1 ! (start + jj)) ! i =
             (if i < n \<and> elems cat ! i \<noteq> - 1 \<and> \<not> skip
                 \<and> mask_recv ! (nat (elems cat ! i) + M * jj) = 1
              then False else null_bits (arrs0 ! (start + jj)) ! i)"
      if "jj < Suc d" "is_cumulative (ftypes ! (start + jj))" for jj i
    proof -
      have "jj \<noteq> d" using that(2) nc by auto
      then have "jj < d" using that(1) by simp
      then show ?thesis using that(2) by (rule w1)
    qed
    show ?thesis
      unfolding eq same
      apply (intro conjI allI impI)
        apply (rule la1)
       apply (rule c2, assumption+)
      apply (rule u1, simp)
      done
  next
    case (Some oper)
    let ?w = "fold (final_row oper skip cat M d recv mask_recv) [0..<n] (?a1 ! ?j)"
    have res: "?F ?j ?a1 = ?a1[?j := ?w]"
      using Some by (simp add: final_phase_step_def)
    have j_in: "?j < length ?a1" using lens dD' la1 by simp
    have a0: "?a1 ! ?j = arrs0 ! ?j" using u1 [of d] by simp
    have len_w: "n \<le> length (null_bits (?a1 ! ?j))" using lens dD' a0 by simp
    note L = final_pass [OF len_w, of oper skip cat M d recv mask_recv]
    have Lb: "\<And>i. null_bits ?w ! i =
           (if i < n \<and> elems cat ! i \<noteq> - 1 \<and> \<not> skip
               \<and> mask_recv ! (nat (elems cat ! i) + M * d) = 1
            then False else null_bits (?a1 ! ?j) ! i)"
      by (rule L [THEN conjunct2, rule_format])
    have nth_other: "?a1[?j := ?w] ! (start + jj) = ?a1 ! (start + jj)" if "jj \<noteq> d" for jj
      using that by simp
    have nth_here: "?a1[?j := ?w] ! ?j = ?w" using j_in by simp
    have c2: "null_bits (?a1[?j := ?w] ! (start + jj)) ! i =
             (if i < n \<and> elems cat ! i \<noteq> - 1 \<and> \<not> skip
                 \<and> mask_recv ! (nat (elems cat ! i) + M * jj) = 1
              then False else null_bits (arrs0 ! (start + jj)) ! i)"
      if "jj < Suc d" "is_cumulative (ftypes ! (start + jj))" for jj i
    proof (cases "jj = d")
      case True
      have e1: "?a1[?j := ?w] ! (start + jj) = ?w" using True nth_here by simp
      have e2: "null_bits (?a1 ! ?j) ! i = null_bits (arrs0 ! (start + jj)) ! i"
        using a0 True by simp
      show ?thesis
        apply (subst e1)
        apply (subst Lb)
        apply (subst e2)
        apply (simp only: True)
        done
    next
      case False
      then have lt: "jj < d" using that(1) by simp
      show ?thesis unfolding nth_other [OF False] by (rule w1 [OF lt that(2)])
    qed
    have c3: "?a1[?j := ?w] ! (start + jj) = arrs0 ! (start + jj)" if "Suc d \<le> jj" for jj
    proof -
      have "jj \<noteq> d" "d \<le> jj" using that by simp_all
      then show ?thesis using nth_other [of jj] u1 [of jj] by simp
    qed
    show ?thesis
      unfolding eq res
      apply (intro conjI allI impI)
        apply (simp add: la1)
       apply (rule c2, assumption+)
      apply (rule c3, assumption)
      done
  qed
qed

lemma rank_ok_lens:
  assumes "rank_ok start end M rank" "start \<le> end"
  shows "\<forall>jj<end - start. start + jj < length (out_arrs rank)
           \<and> arr_length (in_col rank) \<le> length (null_bits (out_arrs rank ! (start + jj)))"
  using assms by (auto simp add: rank_ok_def list_all_iff)

lemma local_phase_rank_not_skipped:
  assumes ok: "rank_ok start end M rank" and se: "start \<le> end"
  shows "length (fst (local_phase T ftypes start end False rank)) = length (out_arrs rank)"
    and "length (snd (snd (local_phase T ftypes start end False rank))) = M * (end - start)"
    and "\<And>p. p < M * (end - start) \<Longrightarrow>
           snd (snd (local_phase T ftypes start end False rank)) ! p = 0
           \<or> snd (snd (local_phase T ftypes start end False rank)) ! p = 1"
    and "\<And>j g. start \<le> j \<Longrightarrow> j < end \<Longrightarrow> g < M \<Longrightarrow> is_cumulative (ftypes ! j) \<Longrightarrow>
           (snd (snd (local_phase T ftypes start end False rank)) ! (g + M * (j - start)) = 1)
           = null_seen (cat_column rank) (in_col rank) (int g) (arr_length (in_col rank))"
    and "\<And>j i. start \<le> j \<Longrightarrow> j < end \<Longrightarrow> i < arr_length (in_col rank) \<Longrightarrow>
           is_cumulative (ftypes ! j) \<Longrightarrow>
           null_bits (fst (local_phase T ftypes start end False rank) ! j) ! i =
             (elems (cat_column rank) ! i \<noteq> - 1 \<and> null_bits (in_col rank) ! i
              \<and> \<not> null_seen (cat_column rank) (in_col rank) (elems (cat_column rank) ! i) i)"
    and "\<And>j. start \<le> j \<Longrightarrow> j < end \<Longrightarrow>
           length (null_bits (fst (local_phase T ftypes start end False rank) ! j))
           = length (null_bits (out_arrs rank ! j))"
proof -
  let ?cat = "cat_column rank" and ?ic = "in_col rank" and ?n = "arr_length (in_col rank)"
  let ?D = "end - start"
  let ?m0 = "replicate (M * ?D) (0::byte)"
  let ?c0 = "init_cumulative T ftypes start end M"
  have Mq: "num_categories ?cat = M" using ok by (simp add: rank_ok_def)
  have cok: "codes_ok ?cat M ?n" using ok by (simp add: rank_ok_def)
  have e: "start + ?D = end" using se by simp
  have lp: "local_phase T ftypes start end False rank =
      fold (local_phase_step T ftypes start False ?cat ?ic M ?n) [start..<start + ?D]
        (out_arrs rank, ?c0, ?m0)"
    unfolding e by (simp add: local_phase_def Let_def Mq)
  obtain arrs c m where run:
    "fold (local_phase_step T ftypes start False ?cat ?ic M ?n) [start..<start + ?D]
        (out_arrs rank, ?c0, ?m0) = (arrs, c, m)"
    by (cases "fold (local_phase_step T ftypes start False ?cat ?ic M ?n) [start..<start + ?D]
        (out_arrs rank, ?c0, ?m0)")
  have lm: "length ?m0 = M * ?D" by simp
  have zero: "\<forall>p<M * ?D. ?m0 ! p = 0" by simp
  note L = local_phase_not_skipped [OF cok rank_ok_lens [OF ok se] lm zero le_refl run]
  have f: "fst (local_phase T ftypes start end False rank) = arrs"
    "snd (snd (local_phase T ftypes start end False rank)) = m"
    by (simp_all add: lp run)
  show "length (fst (local_phase T ftypes start end False rank)) = length (out_arrs rank)"
    unfolding f by (rule L [THEN conjunct1])
  show "length (snd (snd (local_phase T ftypes start end False rank))) = M * (end - start)"
    unfolding f by (rule L [THEN conjunct2, THEN conjunct1])
  show "snd (snd (local_phase T ftypes start end False rank)) ! p = 0
           \<or> snd (snd (local_phase T ftypes start end False rank)) ! p = 1"
    if "p < M * (end - start)" for p
    unfolding f using that by (rule L [THEN conjunct2, THEN conjunct2, THEN conjunct1, rule_format])
  show "(snd (snd (local_phase T ftypes start end False rank)) ! (g + M * (j - start)) = 1)
           = null_seen (cat_column rank) (in_col rank) (int g) (arr_length (in_col rank))"
    if "start \<le> j" "j < end" "g < M" "is_cumulative (ftypes ! j)" for j g
  proof -
    have jj: "j - start < ?D" "start + (j - start) = j" using that(1,2) by simp_all
    have ic: "is_cumulative (ftypes ! (start + (j - start)))" using that(4) jj(2) by simp
    show ?thesis
      unfolding f null_seen_iff
      by (rule L [THEN conjunct2, THEN conjunct2, THEN conjunct2, THEN conjunct1, rule_format,
            OF jj(1) that(3) ic])
  qed
  show "null_bits (fst (local_phase T ftypes start end False rank) ! j) ! i =
             (elems (cat_column rank) ! i \<noteq> - 1 \<and> null_bits (in_col rank) ! i
              \<and> \<not> null_seen (cat_column rank) (in_col rank) (elems (cat_column rank) ! i) i)"
    if "start \<le> j" "j < end" "i < arr_length (in_col rank)" "is_cumulative (ftypes ! j)" for j i
  proof -
    have jj: "j - start < ?D" "start + (j - start) = j" using that(1,2) by simp_all
    have ic: "is_cumulative (ftypes ! (start + (j - start)))" using that(4) jj(2) by simp
    have "null_bits (arrs ! (start + (j - start))) ! i =
             (elems ?cat ! i \<noteq> - 1 \<and> null_bits ?ic ! i
              \<and> \<not> null_seen ?cat ?ic (elems ?cat ! i) i)"
      by (rule L [THEN conjunct2, THEN conjunct2, THEN conjunct2, THEN conjunct2,
            THEN conjunct2, THEN conjunct1, rule_format, OF jj(1) that(3) ic])
    then show ?thesis unfolding f jj(2) .
  qed
  show "length (null_bits (fst (local_phase T ftypes start end False rank) ! j))
           = length (null_bits (out_arrs rank ! j))"
    if "start \<le> j" "j < end" for j
  proof -
    have jj: "j - start < ?D" "start + (j - start) = j" using that(1,2) by simp_all
    have "length (null_bits (arrs ! (start + (j - start))))
           = length (null_bits (out_arrs rank ! (start + (j - start))))"
      by (rule L [THEN conjunct2, THEN conjunct2, THEN conjunct2, THEN conjunct2,
            THEN conjunct2, THEN conjunct2, THEN conjunct1, rule_format, OF jj(1)])
    then show ?thesis unfolding f jj(2) .
  qed
qed

lemma local_phase_rank_skipped:
  assumes ok: "rank_ok start end M rank" and se: "start \<le> end"
  shows "length (fst (local_phase T ftypes start end True rank)) = length (out_arrs rank)"
    and "\<And>j i. start \<le> j \<Longrightarrow> j < end \<Longrightarrow> i < arr_length (in_col rank) \<Longrightarrow>
           is_cumulative (ftypes ! j) \<Longrightarrow>
           null_bits (fst (local_phase T ftypes start end True rank) ! j) ! i =
             (elems (cat_column rank) ! i \<noteq> - 1 \<and> null_bits (in_col rank) ! i)"
    and "\<And>j. start \<le> j \<Longrightarrow> j < end \<Longrightarrow>
           length (null_bits (fst (local_phase T ftypes start end True rank) ! j))
           = length (null_bits (out_arrs rank ! j))"
proof -
  let ?cat = "cat_column rank" and ?ic = "in_col rank" and ?n = "arr_length (in_col rank)"
  let ?D = "end - start"
  let ?c0 = "init_cumulative T ftypes start end M"
  have Mq: "num_categories ?cat = M" using ok by (simp add: rank_ok_def)
  have e: "start + ?D = end" using se by simp
  have lp: "local_phase T ftypes start end True rank =
      fold (local_phase_step T ftypes start True ?cat ?ic M ?n) [start..<start + ?D]
        (out_arrs rank, ?c0, [])"
    unfolding e by (simp add: local_phase_def Let_def Mq)
  obtain arrs c m where run:
    "fold (local_phase_step T ftypes start True ?cat ?ic M ?n) [start..<start + ?D]
        (out_arrs rank, ?c0, []) = (arrs, c, m)"
    by (cases "fold (local_phase_step T ftypes start True ?cat ?ic M ?n) [start..<start + ?D]
        (out_arrs rank, ?c0, [])")
  note L = local_phase_skipped [OF rank_ok_lens [OF ok se] le_refl run]
  have f: "fst (local_phase T ftypes start end True rank) = arrs"
    by (simp add: lp run)
  show "length (fst (local_phase T ftypes start end True rank)) = length (out_arrs rank)"
    unfolding f by (rule L [THEN conjunct1])
  show "null_bits (fst (local_phase T ftypes start end True rank) ! j) ! i =
             (elems (cat_column rank) ! i \<noteq> - 1 \<and> null_bits (in_col rank) ! i)"
    if "start \<le> j" "j < end" "i < arr_length (in_col rank)" "is_cumulative (ftypes ! j)" for j i
  proof -
    have jj: "j - start < ?D" "start + (j - start) = j" using that(1,2) by simp_all
    have ic: "is_cumulative (ftypes ! (start + (j - start)))" using that(4) jj(2) by simp
    have "null_bits (arrs ! (start + (j - start))) ! i =
             (elems ?cat ! i \<noteq> - 1 \<and> null_bits ?ic ! i)"
      by (rule L [THEN conjunct2, THEN conjunct2, THEN conjunct1, rule_format,
            OF jj(1) that(3) ic])
    then show ?thesis unfolding f jj(2) .
  qed
  show "length (null_bits (fst (local_phase T ftypes start end True rank) ! j))
           = length (null_bits (out_arrs rank ! j))"
    if "start \<le> j" "j < end" for j
  proof -
    have jj: "j - start < ?D" "start + (j - start) = j" using that(1,2) by simp_all
    have "length (null_bits (arrs ! (start + (j - start))))
           = length (null_bits (out_arrs rank ! (start + (j - start))))"
      by (rule L [THEN conjunct2, THEN conjunct2, THEN conjunct2, THEN conjunct1, rule_format,
            OF jj(1)])
    then show ?thesis unfolding f jj(2) .
  qed
qed

lemma final_phase_rank:
  assumes Mq: "num_categories (cat_column rank) = M" and se: "start \<le> end"
    and lens: "\<forall>jj<end - start. start + jj < length arrs0
           \<and> arr_length (in_col rank) \<le> length (null_bits (arrs0 ! (start + jj)))"
    and j: "start \<le> j" "j < end" and cum: "is_cumulative (ftypes ! j)"
  shows "null_bits (final_phase T ftypes start end skip rank arrs0 recv mask_recv ! j) ! i =
           (if i < arr_length (in_col rank) \<and> elems (cat_column rank) ! i \<noteq> - 1 \<and> \<not> skip
               \<and> mask_recv ! (nat (elems (cat_column rank) ! i) + M * (j - start)) = 1
            then False else null_bits (arrs0 ! j) ! i)"
proof -
  let ?D = "end - start"
  have e: "start + ?D = end" using se by simp
  have jj: "j - start < ?D" "start + (j - start) = j" using j by simp_all
  have ic: "is_cumulative (ftypes ! (start + (j - start)))" using cum jj(2) by simp
  have fp: "final_phase T ftypes start end skip rank arrs0 recv mask_recv =
      fold (final_phase_step T ftypes start skip (cat_column rank) M (arr_length (in_col rank))
              recv mask_recv) [start..<start + ?D] arrs0"
    unfolding e by (simp add: final_phase_def Let_def Mq)
  note L = final_phase_bits [OF lens le_refl, of T ftypes skip "cat_column rank" M recv mask_recv]
  have "null_bits (fold (final_phase_step T ftypes start skip (cat_column rank) M
              (arr_length (in_col rank)) recv mask_recv) [start..<start + ?D] arrs0
            ! (start + (j - start))) ! i =
           (if i < arr_length (in_col rank) \<and> elems (cat_column rank) ! i \<noteq> - 1 \<and> \<not> skip
               \<and> mask_recv ! (nat (elems (cat_column rank) ! i) + M * (j - start)) = 1
            then False else null_bits (arrs0 ! (start + (j - start))) ! i)"
    by (rule L [THEN conjunct2, THEN conjunct1, rule_format, OF jj(1) ic])
  then show ?thesis unfolding fp jj(2) .
qed

lemma null_seen_below_iff:
  "null_seen_below ranks r g \<longleftrightarrow>
     (\<exists>r'<r. null_seen (cat_column (ranks ! r')) (in_col (ranks ! r')) g
                (arr_length (in_col (ranks ! r'))))"
  by (auto simp add: null_seen_below_def list_ex_iff)

lemma scanned_mask_slot:
  assumes ok: "exscan_inputs_ok start end ranks"
    and r: "r < length ranks" and j: "start \<le> j" "j < end" and cum: "is_cumulative (ftypes ! j)"
    and g: "g < num_categories (cat_column (hd ranks))"
  shows "(exscan_mask (num_categories (cat_column (hd ranks))) (end - start)
            (map (\<lambda>rank. snd (snd (local_phase T ftypes start end False rank))) ranks)
            ! r ! (g + num_categories (cat_column (hd ranks)) * (j - start)) = 1)
         = null_seen_below ranks r (int g)"
proof -
  let ?M = "num_categories (cat_column (hd ranks))"
  let ?masks = "map (\<lambda>rank. snd (snd (local_phase T ftypes start end False rank))) ranks"
  have se: "start \<le> end" using ok by (simp add: exscan_inputs_ok_def)
  have rk: "rank_ok start end ?M rank" if "rank \<in> set ranks" for rank
    using ok that by (simp add: exscan_inputs_ok_def list_all_iff)
  have lens: "\<forall>x \<in> set ?masks. length x = ?M * (end - start)"
    using local_phase_rank_not_skipped(2) [OF rk se] by auto
  have vals: "\<forall>x \<in> set ?masks. \<forall>p<?M * (end - start). x ! p = 0 \<or> x ! p = 1"
    using local_phase_rank_not_skipped(3) [OF rk se] by auto
  have r': "r < length ?masks" using r by simp
  have p: "g + ?M * (j - start) < ?M * (end - start)"
    using g j by (intro slice_in_range) simp_all
  have slot: "(?masks ! r' ! (g + ?M * (j - start)) = 1)
      = null_seen (cat_column (ranks ! r')) (in_col (ranks ! r')) (int g)
          (arr_length (in_col (ranks ! r')))" if "r' < r" for r'
  proof -
    have in_r: "r' < length ranks" using that r by simp
    then have mem: "ranks ! r' \<in> set ranks" by simp
    have nth: "?masks ! r' = snd (snd (local_phase T ftypes start end False (ranks ! r')))"
      using in_r by simp
    show ?thesis
      unfolding nth
      by (rule local_phase_rank_not_skipped(4) [OF rk [OF mem] se j g cum])
  qed
  have "(exscan_mask ?M (end - start) ?masks ! r ! (g + ?M * (j - start)) = 1)
      = (\<exists>r'<r. ?masks ! r' ! (g + ?M * (j - start)) = 1)"
    by (rule exscan_mask_spec [OF lens vals r' p])
  also have "\<dots> = (\<exists>r'<r. null_seen (cat_column (ranks ! r')) (in_col (ranks ! r')) (int g)
          (arr_length (in_col (ranks ! r'))))"
    using slot by auto
  finally show ?thesis unfolding null_seen_below_iff .
qed

lemma exscan_result_not_skipped:
  assumes offs: "start = nat (func_offsets ! k)" "end = nat (func_offsets ! (k + 1))"
    and r: "r < length ranks"
  shows "\<exists>recv. mpi_exscan_computation_nullable_T T ftypes func_offsets k True False ranks ! r
     = final_phase T ftypes start end False (ranks ! r)
         (fst (local_phase T ftypes start end False (ranks ! r))) recv
         (exscan_mask (num_categories (cat_column (hd ranks))) (end - start)
            (map (\<lambda>rank. snd (snd (local_phase T ftypes start end False rank))) ranks) ! r)"
  unfolding offs using r
  by (auto simp add: mpi_exscan_computation_nullable_T_def Let_def comp_def)

lemma exscan_result_skipped:
  assumes offs: "start = nat (func_offsets ! k)" "end = nat (func_offsets ! (k + 1))"
    and r: "r < length ranks"
  shows "mpi_exscan_computation_nullable_T T ftypes func_offsets k False True ranks ! r
           = fst (local_phase T ftypes start end True (ranks ! r))"
    and "\<exists>recv. mpi_exscan_computation_nullable_T T ftypes func_offsets k True True ranks ! r
     = final_phase T ftypes start end True (ranks ! r)
         (fst (local_phase T ftypes start end True (ranks ! r))) recv []"
  unfolding offs using r
  by (auto simp add: mpi_exscan_computation_nullable_T_def Let_def comp_def)

lemma not_skipped_null_bits:
  assumes ok: "exscan_inputs_ok start end ranks"
    and offs: "start = nat (func_offsets ! k)" "end = nat (func_offsets ! (k + 1))"
    and r: "r < length ranks" and j: "start \<le> j" "j < end" and cum: "is_cumulative (ftypes ! j)"
    and i: "i < arr_length (in_col (ranks ! r))"
  shows "null_bits (mpi_exscan_computation_nullable_T T ftypes func_offsets k True False ranks
                      ! r ! j) ! i =
       (elems (cat_column (ranks ! r)) ! i \<noteq> - 1 \<and> null_bits (in_col (ranks ! r)) ! i
        \<and> \<not> null_seen (cat_column (ranks ! r)) (in_col (ranks ! r))
               (elems (cat_column (ranks ! r)) ! i) i
        \<and> \<not> null_seen_below ranks r (elems (cat_column (ranks ! r)) ! i))"
proof -
  let ?M = "num_categories (cat_column (hd ranks))"
  let ?rank = "ranks ! r"
  let ?cat = "cat_column ?rank" and ?ic = "in_col ?rank"
  let ?masks = "map (\<lambda>rank. snd (snd (local_phase T ftypes start end False rank))) ranks"
  let ?arrs0 = "fst (local_phase T ftypes start end False ?rank)"
  have se: "start \<le> end" using ok by (simp add: exscan_inputs_ok_def)
  have mem: "?rank \<in> set ranks" using r by simp
  have rk: "rank_ok start end ?M ?rank"
    using ok mem by (simp add: exscan_inputs_ok_def list_all_iff)
  have Mq: "num_categories ?cat = ?M" using rk by (simp add: rank_ok_def)
  have cok: "codes_ok ?cat ?M (arr_length ?ic)" using rk by (simp add: rank_ok_def)
  obtain recv where res:
    "mpi_exscan_computation_nullable_T T ftypes func_offsets k True False ranks ! r
     = final_phase T ftypes start end False ?rank ?arrs0 recv
         (exscan_mask ?M (end - start) ?masks ! r)"
    using exscan_result_not_skipped [OF offs r] by blast
  have lens: "\<forall>jj<end - start. start + jj < length ?arrs0
           \<and> arr_length ?ic \<le> length (null_bits (?arrs0 ! (start + jj)))"
  proof (intro allI impI)
    fix jj assume jj: "jj < end - start"
    have a: "start \<le> start + jj" "start + jj < end" using jj by simp_all
    have "length (null_bits (?arrs0 ! (start + jj)))
        = length (null_bits (out_arrs ?rank ! (start + jj)))"
      by (rule local_phase_rank_not_skipped(6) [OF rk se a])
    moreover have "length ?arrs0 = length (out_arrs ?rank)"
      by (rule local_phase_rank_not_skipped(1) [OF rk se])
    ultimately show "start + jj < length ?arrs0
           \<and> arr_length ?ic \<le> length (null_bits (?arrs0 ! (start + jj)))"
      using rank_ok_lens [OF rk se] jj by simp
  qed
  have fin: "null_bits (final_phase T ftypes start end False ?rank ?arrs0 recv
                 (exscan_mask ?M (end - start) ?masks ! r) ! j) ! i =
           (if i < arr_length ?ic \<and> elems ?cat ! i \<noteq> - 1 \<and> \<not> False
               \<and> exscan_mask ?M (end - start) ?masks ! r
                    ! (nat (elems ?cat ! i) + ?M * (j - start)) = 1
            then False else null_bits (?arrs0 ! j) ! i)"
    by (rule final_phase_rank [OF Mq se lens j cum])
  have loc: "null_bits (?arrs0 ! j) ! i =
             (elems ?cat ! i \<noteq> - 1 \<and> null_bits ?ic ! i
              \<and> \<not> null_seen ?cat ?ic (elems ?cat ! i) i)"
    by (rule local_phase_rank_not_skipped(5) [OF rk se j i cum])
  show ?thesis
  proof (cases "elems ?cat ! i = - 1")
    case True
    then show ?thesis unfolding res fin loc by simp
  next
    case False
    have g: "0 \<le> elems ?cat ! i" "nat (elems ?cat ! i) < ?M"
      using codes_okD [OF cok i False] by simp_all
    have ig: "int (nat (elems ?cat ! i)) = elems ?cat ! i" using g(1) by simp
    have mask: "(exscan_mask ?M (end - start) ?masks ! r
                    ! (nat (elems ?cat ! i) + ?M * (j - start)) = 1)
         = null_seen_below ranks r (elems ?cat ! i)"
      using scanned_mask_slot [OF ok r j cum g(2), of T] unfolding ig .
    show ?thesis unfolding res fin loc mask using i False by auto
  qed
qed

lemma skipped_null_bits:
  assumes ok: "exscan_inputs_ok start end ranks"
    and offs: "start = nat (func_offsets ! k)" "end = nat (func_offsets ! (k + 1))"
    and r: "r < length ranks" and j: "start \<le> j" "j < end" and cum: "is_cumulative (ftypes ! j)"
    and i: "i < arr_length (in_col (ranks ! r))"
  shows "null_bits (mpi_exscan_computation_nullable_T T ftypes func_offsets k is_parallel True
                      ranks ! r ! j) ! i =
       (elems (cat_column (ranks ! r)) ! i \<noteq> - 1 \<and> null_bits (in_col (ranks ! r)) ! i)"
proof -
  let ?M = "num_categories (cat_column (hd ranks))"
  let ?rank = "ranks ! r"
  let ?cat = "cat_column ?rank" and ?ic = "in_col ?rank"
  let ?arrs0 = "fst (local_phase T ftypes start end True ?rank)"
  have se: "start \<le> end" using ok by (simp add: exscan_inputs_ok_def)
  have mem: "?rank \<in> set ranks" using r by simp
  have rk: "rank_ok start end ?M ?rank"
    using ok mem by (simp add: exscan_inputs_ok_def list_all_iff)
  have Mq: "num_categories ?cat = ?M" using rk by (simp add: rank_ok_def)
  have loc: "null_bits (?arrs0 ! j) ! i = (elems ?cat ! i \<noteq> - 1 \<and> null_bits ?ic ! i)"
    by (rule local_phase_rank_skipped(2) [OF rk se j i cum])
  show ?thesis
  proof (cases is_parallel)
    case False
    then have ip: "is_parallel = False" by simp
    show ?thesis
      unfolding ip exscan_result_skipped(1) [OF offs r] by (rule loc)
  next
    case True
    obtain recv where res:
      "mpi_exscan_computation_nullable_T T ftypes func_offsets k True True ranks ! r
       = final_phase T ftypes start end True ?rank ?arrs0 recv []"
      using exscan_result_skipped(2) [OF offs r] by blast
    have lens: "\<forall>jj<end - start. start + jj < length ?arrs0
           \<and> arr_length ?ic \<le> length (null_bits (?arrs0 ! (start + jj)))"
    proof (intro allI impI)
      fix jj assume jj: "jj < end - start"
      have a: "start \<le> start + jj" "start + jj < end" using jj by simp_all
      have "length (null_bits (?arrs0 ! (start + jj)))
          = length (null_bits (out_arrs ?rank ! (start + jj)))"
        by (rule local_phase_rank_skipped(3) [OF rk se a])
      moreover have "length ?arrs0 = length (out_arrs ?rank)"
        by (rule local_phase_rank_skipped(1) [OF rk se])
      ultimately show "start + jj < length ?arrs0
           \<and> arr_length ?ic \<le> length (null_bits (?arrs0 ! (start + jj)))"
        using rank_ok_lens [OF rk se] jj by simp
    qed
    have fin: "null_bits (final_phase T ftypes start end True ?rank ?arrs0 recv [] ! j) ! i =
           (if i < arr_length ?ic \<and> elems ?cat ! i \<noteq> - 1 \<and> \<not> True
               \<and> ([]::byte list) ! (nat (elems ?cat ! i) + ?M * (j - start)) = 1
            then False else null_bits (?arrs0 ! j) ! i)"
      by (rule final_phase_rank [OF Mq se lens j cum])
    have ip: "is_parallel = True" using True by simp
    show ?thesis unfolding ip res fin loc by simp
  qed
qed

text \<open>
  C6: in the nullable exclusive scan with nulls not skipped, the mask that the separate
  \<^verbatim>\<open>MPI_MAX\<close> exclusive scan delivers to process \<open>r\<close> is set, at the slot of group \<open>g\<close> and
  function \<open>j\<close>, exactly when a process of lower rank holds a null of that group; and a
  row of the output is valid exactly when it has a key, its input is valid, no earlier
  row of the same process and no process of lower rank holds a null of its group: every
  row downstream of a null is marked null. With nulls skipped the output row is valid
  exactly when it has a key and its input is valid, so a null input row stays null, and a
  null row leaves the running values as they were.
\<close>

theorem nullable_exscan_null_handling:
  assumes "exscan_inputs_ok start end ranks"
    and "start = nat (func_offsets ! k)" and "end = nat (func_offsets ! (k + 1))"
    and "r < length ranks" and "start \<le> j" and "j < end" and "is_cumulative (ftypes ! j)"
    and "i < arr_length (in_col (ranks ! r))"
    and "g < num_categories (cat_column (hd ranks))"
  shows "((exscan_mask (num_categories (cat_column (hd ranks))) (end - start)
            (map (\<lambda>rank. snd (snd (local_phase T ftypes start end False rank))) ranks)
            ! r ! (g + num_categories (cat_column (hd ranks)) * (j - start)) = 1)
          = null_seen_below ranks r (int g))
     \<and> null_bits (mpi_exscan_computation_nullable_T T ftypes func_offsets k True False ranks
                    ! r ! j) ! i =
         (elems (cat_column (ranks ! r)) ! i \<noteq> - 1 \<and> null_bits (in_col (ranks ! r)) ! i
          \<and> \<not> null_seen (cat_column (ranks ! r)) (in_col (ranks ! r))
                 (elems (cat_column (ranks ! r)) ! i) i
          \<and> \<not> null_seen_below ranks r (elems (cat_column (ranks ! r)) ! i))
     \<and> null_bits (mpi_exscan_computation_nullable_T T ftypes func_offsets k is_parallel True
                    ranks ! r ! j) ! i =
         (elems (cat_column (ranks ! r)) ! i \<noteq> - 1 \<and> null_bits (in_col (ranks ! r)) ! i)
     \<and> (elems (cat_column (ranks ! r)) ! i \<noteq> - 1 \<and> \<not> null_bits (in_col (ranks ! r)) ! i
          \<longrightarrow> fst (snd (local_row oper True (cat_column (ranks ! r)) (in_col (ranks ! r))
                           (num_categories (cat_column (ranks ! r))) (j - start) i
                           (w0, c0, m0))) = c0)"
proof (intro conjI)
  show "(exscan_mask (num_categories (cat_column (hd ranks))) (end - start)
            (map (\<lambda>rank. snd (snd (local_phase T ftypes start end False rank))) ranks)
            ! r ! (g + num_categories (cat_column (hd ranks)) * (j - start)) = 1)
          = null_seen_below ranks r (int g)"
    using assms(1,4,5,6,7,9) by (rule scanned_mask_slot)
  show "null_bits (mpi_exscan_computation_nullable_T T ftypes func_offsets k True False ranks
                    ! r ! j) ! i =
         (elems (cat_column (ranks ! r)) ! i \<noteq> - 1 \<and> null_bits (in_col (ranks ! r)) ! i
          \<and> \<not> null_seen (cat_column (ranks ! r)) (in_col (ranks ! r))
                 (elems (cat_column (ranks ! r)) ! i) i
          \<and> \<not> null_seen_below ranks r (elems (cat_column (ranks ! r)) ! i))"
    using assms(1-8) by (rule not_skipped_null_bits)
  show "null_bits (mpi_exscan_computation_nullable_T T ftypes func_offsets k is_parallel True
                    ranks ! r ! j) ! i =
         (elems (cat_column (ranks ! r)) ! i \<noteq> - 1 \<and> null_bits (in_col (ranks ! r)) ! i)"
    using assms(1-8) by (rule skipped_null_bits)
  show "elems (cat_column (ranks ! r)) ! i \<noteq> - 1 \<and> \<not> null_bits (in_col (ranks ! r)) ! i
          \<longrightarrow> fst (snd (local_row oper True (cat_column (ranks ! r)) (in_col (ranks ! r))
                           (num_categories (cat_column (ranks ! r))) (j - start) i
                           (w0, c0, m0))) = c0"
    by (simp add: local_row_def Let_def)
qed

theorem nullable_exscan_null_handling_witness:
  "exscan_inputs_ok 0 1 example_null_ranks \<and> is_cumulative ([cumsum] ! 0)
   \<and> exscan_mask 2 1
        (map (\<lambda>rank. snd (snd (local_phase T_int64_arith [cumsum] 0 1 False rank)))
           example_null_ranks) ! 1 ! 1 = 1
   \<and> null_bits (in_col (example_null_ranks ! 1)) ! 1
   \<and> \<not> null_bits (mpi_exscan_computation_nullable_T T_int64_arith [cumsum] [0, 1] 0 True False
                     example_null_ranks ! 1 ! 0) ! 1
   \<and> \<not> null_bits (in_col (example_null_ranks ! 0)) ! 1
   \<and> \<not> null_bits (mpi_exscan_computation_nullable_T T_int64_arith [cumsum] [0, 1] 0 True True
                     example_null_ranks ! 0 ! 0) ! 1
   \<and> fst (snd (local_row (T_add T_int64_arith) True (cat_column (example_null_ranks ! 0))
                  (in_col (example_null_ranks ! 0)) 2 0 1
                  (out_arrs (example_null_ranks ! 0) ! 0, [0, 0], []))) = [0, 0]"
proof -
  have ok: "exscan_inputs_ok 0 1 example_null_ranks"
    by (simp add: exscan_inputs_ok_def rank_ok_def codes_ok_def example_null_ranks_def
        cat_codes_def int_column_def numeral_3_eq_3)
  have offs: "0 = nat ([0, 1] ! 0)" "1 = nat ([0, 1] ! (0 + 1))" by simp_all
  have cum: "is_cumulative ([cumsum] ! 0)" by (simp add: is_cumulative_def)
  have M: "num_categories (cat_column (hd example_null_ranks)) = 2"
    "num_categories (cat_column (example_null_ranks ! 0)) = 2"
    by (simp_all add: example_null_ranks_def cat_codes_def)
  have len: "(1::nat) < length example_null_ranks" "(0::nat) < length example_null_ranks"
    by (simp_all add: example_null_ranks_def)
  have rows: "1 < arr_length (in_col (example_null_ranks ! 1))"
    "1 < arr_length (in_col (example_null_ranks ! 0))"
    by (simp_all add: example_null_ranks_def int_column_def)
  have g: "1 < num_categories (cat_column (hd example_null_ranks))" by (simp add: M)
  have cells: "elems (cat_column (example_null_ranks ! 1)) ! 1 = 1"
    "null_bits (in_col (example_null_ranks ! 1)) ! 1"
    "elems (cat_column (example_null_ranks ! 0)) ! 1 = 1"
    "\<not> null_bits (in_col (example_null_ranks ! 0)) ! 1"
    by (simp_all add: example_null_ranks_def cat_codes_def int_column_def)
  have below: "null_seen_below example_null_ranks 1 1"
    by (simp add: null_seen_below_def null_seen_def example_null_ranks_def cat_codes_def
        int_column_def numeral_3_eq_3)
  note A = nullable_exscan_null_handling [OF ok offs len(1) le_refl zero_less_one cum rows(1) g,
      of T_int64_arith True "T_add T_int64_arith"
         "out_arrs (example_null_ranks ! 0) ! 0" "[0, 0]" "[]"]
  note B = nullable_exscan_null_handling [OF ok offs len(2) le_refl zero_less_one cum rows(2) g,
      of T_int64_arith True "T_add T_int64_arith"
         "out_arrs (example_null_ranks ! 0) ! 0" "[0, 0]" "[]"]
  have a1: "exscan_mask 2 1
        (map (\<lambda>rank. snd (snd (local_phase T_int64_arith [cumsum] 0 1 False rank)))
           example_null_ranks) ! 1 ! 1 = 1"
    using A [THEN conjunct1] below by (simp add: M)
  have a2: "\<not> null_bits (mpi_exscan_computation_nullable_T T_int64_arith [cumsum] [0, 1] 0 True
                     False example_null_ranks ! 1 ! 0) ! 1"
    using A [THEN conjunct2, THEN conjunct1] below cells(1,2) by simp
  have b3: "\<not> null_bits (mpi_exscan_computation_nullable_T T_int64_arith [cumsum] [0, 1] 0 True
                     True example_null_ranks ! 0 ! 0) ! 1"
    using B [THEN conjunct2, THEN conjunct2, THEN conjunct1] cells(3,4) by simp
  have b4: "fst (snd (local_row (T_add T_int64_arith) True (cat_column (example_null_ranks ! 0))
                  (in_col (example_null_ranks ! 0)) 2 0 1
                  (out_arrs (example_null_ranks ! 0) ! 0, [0, 0], []))) = [0, 0]"
    using B [THEN conjunct2, THEN conjunct2, THEN conjunct2] cells(3,4) by (simp add: M)
  show ?thesis
    using ok cum a1 cells(2) a2 cells(4) b3 b4 by (intro conjI)
qed

subsection \<open>The FINISHED contract of the join operator\<close>

lemma ConsumeBatch_FINISHED:
  assumes "ConsumeBatch grp join_state input_batch prev_op_result = (FINISHED, st)"
  shows "prev_op_result = FINISHED \<and> list_all (\<lambda>flag. flag) (peers_done grp)
     \<and> (IsNestedLoopJoin st \<or> pending_rows (build_shuffle_state st) = 0)"
proof (cases "IsNestedLoopJoin join_state")
  case True
  then show ?thesis
    using assms
    by (auto simp add: ConsumeBatch_def nested_loop_join_build_consume_batch_def
        sync_is_last_def split: if_splits)
next
  case False
  then show ?thesis
    using assms
    by (auto simp add: ConsumeBatch_def join_build_consume_batch_def sync_is_last_def Let_def
        split: if_splits)
qed

lemma ProcessBatch_FINISHED:
  assumes "ProcessBatch grp join_state input_batch prev_op_result = ((out_table, FINISHED), st)"
  shows "prev_op_result = FINISHED \<and> list_all (\<lambda>flag. flag) (peers_done grp)
     \<and> (IsNestedLoopJoin st \<or> pending_rows (probe_shuffle_state st) = 0)
     \<and> total_remaining (output_buffer st) = 0"
proof (cases "IsNestedLoopJoin join_state")
  case True
  then show ?thesis
    using assms
    by (auto simp add: ProcessBatch_def nested_loop_join_probe_consume_batch_def
        sync_is_last_def PopChunk_def Let_def split: if_splits)
next
  case False
  then show ?thesis
    using assms
    by (auto simp add: ProcessBatch_def join_probe_consume_batch_def sync_is_last_def
        PopChunk_def Let_def split: if_splits)
qed

lemma run_ConsumeBatch_length: "length (run_ConsumeBatch join_state calls) = length calls"
  by (induction calls arbitrary: join_state) (auto split: prod.splits)

lemma run_ProcessBatch_length: "length (run_ProcessBatch join_state calls) = length calls"
  by (induction calls arbitrary: join_state) (auto split: prod.splits)

lemma run_ConsumeBatch_FINISHED:
  assumes "n < length calls" "run_ConsumeBatch join_state calls ! n = (FINISHED, st)"
  shows "snd (snd (calls ! n)) = FINISHED
     \<and> list_all (\<lambda>flag. flag) (peers_done (fst (calls ! n)))
     \<and> (IsNestedLoopJoin st \<or> pending_rows (build_shuffle_state st) = 0)"
  using assms
proof (induction calls arbitrary: join_state n)
  case Nil
  then show ?case by simp
next
  case (Cons call calls)
  obtain grp input_batch prev_op_result where call: "call = (grp, input_batch, prev_op_result)"
    by (cases call)
  obtain res st1 where step: "ConsumeBatch grp join_state input_batch prev_op_result = (res, st1)"
    by (cases "ConsumeBatch grp join_state input_batch prev_op_result")
  have run: "run_ConsumeBatch join_state (call # calls) = (res, st1) # run_ConsumeBatch st1 calls"
    by (simp add: call step)
  show ?case
  proof (cases n)
    case 0
    then have "res = FINISHED" "st1 = st" using Cons.prems(2) run by simp_all
    then have "ConsumeBatch grp join_state input_batch prev_op_result = (FINISHED, st)"
      using step by simp
    from ConsumeBatch_FINISHED [OF this] show ?thesis by (simp add: 0 call)
  next
    case (Suc m)
    have m: "m < length calls" using Cons.prems(1) Suc by simp
    have "run_ConsumeBatch st1 calls ! m = (FINISHED, st)"
      using Cons.prems(2) run Suc by simp
    from Cons.IH [OF m this] show ?thesis by (simp add: Suc)
  qed
qed

lemma run_ProcessBatch_FINISHED:
  assumes "n < length calls" "run_ProcessBatch join_state calls ! n = (FINISHED, st)"
  shows "snd (snd (calls ! n)) = FINISHED
     \<and> list_all (\<lambda>flag. flag) (peers_done (fst (calls ! n)))
     \<and> (IsNestedLoopJoin st \<or> pending_rows (probe_shuffle_state st) = 0)
     \<and> total_remaining (output_buffer st) = 0"
  using assms
proof (induction calls arbitrary: join_state n)
  case Nil
  then show ?case by simp
next
  case (Cons call calls)
  obtain grp input_batch prev_op_result where call: "call = (grp, input_batch, prev_op_result)"
    by (cases call)
  obtain out_table res st1 where
    step: "ProcessBatch grp join_state input_batch prev_op_result = ((out_table, res), st1)"
    by (cases "ProcessBatch grp join_state input_batch prev_op_result") auto
  have run: "run_ProcessBatch join_state (call # calls) = (res, st1) # run_ProcessBatch st1 calls"
    by (simp add: call step)
  show ?case
  proof (cases n)
    case 0
    then have "res = FINISHED" "st1 = st" using Cons.prems(2) run by simp_all
    then have "ProcessBatch grp join_state input_batch prev_op_result
        = ((out_table, FINISHED), st)"
      using step by simp
    from ProcessBatch_FINISHED [OF this] show ?thesis by (simp add: 0 call)
  next
    case (Suc m)
    have m: "m < length calls" using Cons.prems(1) Suc by simp
    have "run_ProcessBatch st1 calls ! m = (FINISHED, st)"
      using Cons.prems(2) run Suc by simp
    from Cons.IH [OF m this] show ?thesis by (simp add: Suc)
  qed
qed

text \<open>
  C2: in every sequence of batches fed to the build entry point or to the probe entry
  point of the join operator, a call answers \<^verbatim>\<open>FINISHED\<close> only if the upstream result passed
  to that call was \<^verbatim>\<open>FINISHED\<close>, every peer of the process group has agreed that it is done,
  the shuffle buffers of that side hold no pending rows (a nested loop join has none) and,
  on the probe side, the output buffer is empty: local input exhaustion alone never gives
  \<^verbatim>\<open>FINISHED\<close>.
\<close>

theorem join_FINISHED_only_when_upstream_finished_and_drained:
  "(n < length calls \<and> fst (run_ConsumeBatch join_state calls ! n) = FINISHED \<longrightarrow>
      snd (snd (calls ! n)) = FINISHED
      \<and> list_all (\<lambda>flag. flag) (peers_done (fst (calls ! n)))
      \<and> (IsNestedLoopJoin (snd (run_ConsumeBatch join_state calls ! n))
          \<or> pending_rows (build_shuffle_state (snd (run_ConsumeBatch join_state calls ! n))) = 0))
   \<and> (n < length calls \<and> fst (run_ProcessBatch join_state calls ! n) = FINISHED \<longrightarrow>
      snd (snd (calls ! n)) = FINISHED
      \<and> list_all (\<lambda>flag. flag) (peers_done (fst (calls ! n)))
      \<and> (IsNestedLoopJoin (snd (run_ProcessBatch join_state calls ! n))
          \<or> pending_rows (probe_shuffle_state (snd (run_ProcessBatch join_state calls ! n))) = 0)
      \<and> total_remaining (output_buffer (snd (run_ProcessBatch join_state calls ! n))) = 0)"
proof (rule conjI; rule impI)
  assume a: "n < length calls \<and> fst (run_ConsumeBatch join_state calls ! n) = FINISHED"
  then have n: "n < length calls" by simp
  have run: "run_ConsumeBatch join_state calls ! n
      = (FINISHED, snd (run_ConsumeBatch join_state calls ! n))"
    using a by (cases "run_ConsumeBatch join_state calls ! n") simp
  from run_ConsumeBatch_FINISHED [OF n run]
  show "snd (snd (calls ! n)) = FINISHED
      \<and> list_all (\<lambda>flag. flag) (peers_done (fst (calls ! n)))
      \<and> (IsNestedLoopJoin (snd (run_ConsumeBatch join_state calls ! n))
          \<or> pending_rows (build_shuffle_state (snd (run_ConsumeBatch join_state calls ! n))) = 0)" .
next
  assume a: "n < length calls \<and> fst (run_ProcessBatch join_state calls ! n) = FINISHED"
  then have n: "n < length calls" by simp
  have run: "run_ProcessBatch join_state calls ! n
      = (FINISHED, snd (run_ProcessBatch join_state calls ! n))"
    using a by (cases "run_ProcessBatch join_state calls ! n") simp
  from run_ProcessBatch_FINISHED [OF n run]
  show "snd (snd (calls ! n)) = FINISHED
      \<and> list_all (\<lambda>flag. flag) (peers_done (fst (calls ! n)))
      \<and> (IsNestedLoopJoin (snd (run_ProcessBatch join_state calls ! n))
          \<or> pending_rows (probe_shuffle_state (snd (run_ProcessBatch join_state calls ! n))) = 0)
      \<and> total_remaining (output_buffer (snd (run_ProcessBatch join_state calls ! n))) = 0" .
qed

lemma example_build_run:
  "map fst (run_ConsumeBatch example_join_state example_calls)
     = [NEED_MORE_INPUT, NEED_MORE_INPUT, FINISHED]"
  by (simp add: example_join_state_def example_calls_def ConsumeBatch_def
      join_build_consume_batch_def shuffle_rows_def sync_is_last_def BuffersFull_def Let_def)

lemma example_probe_run:
  "map fst (run_ProcessBatch example_join_state example_calls)
     = [NEED_MORE_INPUT, NEED_MORE_INPUT, FINISHED]"
  by (simp add: example_join_state_def example_calls_def ProcessBatch_def
      join_probe_consume_batch_def shuffle_rows_def sync_is_last_def BuffersFull_def
      PopChunk_def Let_def)

theorem join_FINISHED_only_when_upstream_finished_and_drained_witness:
  "2 < length example_calls
   \<and> fst (run_ConsumeBatch example_join_state example_calls ! 2) = FINISHED
   \<and> fst (run_ProcessBatch example_join_state example_calls ! 2) = FINISHED
   \<and> snd (snd (example_calls ! 2)) = FINISHED
   \<and> list_all (\<lambda>flag. flag) (peers_done (fst (example_calls ! 2)))
   \<and> pending_rows (build_shuffle_state
        (snd (run_ConsumeBatch example_join_state example_calls ! 2))) = 0
   \<and> pending_rows (probe_shuffle_state
        (snd (run_ProcessBatch example_join_state example_calls ! 2))) = 0
   \<and> total_remaining (output_buffer
        (snd (run_ProcessBatch example_join_state example_calls ! 2))) = 0"
proof -
  have len: "2 < length example_calls" by (simp add: example_calls_def)
  have l1: "2 < length (run_ConsumeBatch example_join_state example_calls)"
    using len by (simp add: run_ConsumeBatch_length)
  have l2: "2 < length (run_ProcessBatch example_join_state example_calls)"
    using len by (simp add: run_ProcessBatch_length)
  have b: "fst (run_ConsumeBatch example_join_state example_calls ! 2) = FINISHED"
    using example_build_run nth_map [OF l1, of fst] by simp
  have p: "fst (run_ProcessBatch example_join_state example_calls ! 2) = FINISHED"
    using example_probe_run nth_map [OF l2, of fst] by simp
  have nl1: "\<not> IsNestedLoopJoin (snd (run_ConsumeBatch example_join_state example_calls ! 2))"
    by (simp add: example_join_state_def example_calls_def ConsumeBatch_def
      join_build_consume_batch_def shuffle_rows_def sync_is_last_def BuffersFull_def Let_def
      numeral_2_eq_2)
  have nl2: "\<not> IsNestedLoopJoin (snd (run_ProcessBatch example_join_state example_calls ! 2))"
    by (simp add: example_join_state_def example_calls_def ProcessBatch_def
      join_probe_consume_batch_def shuffle_rows_def sync_is_last_def BuffersFull_def
      PopChunk_def Let_def numeral_2_eq_2)
  note inst = join_FINISHED_only_when_upstream_finished_and_drained
      [of 2 example_calls example_join_state]
  have c1: "snd (snd (example_calls ! 2)) = FINISHED
      \<and> list_all (\<lambda>flag. flag) (peers_done (fst (example_calls ! 2)))
      \<and> pending_rows (build_shuffle_state
           (snd (run_ConsumeBatch example_join_state example_calls ! 2))) = 0"
    using inst [THEN conjunct1] len b nl1 by blast
  have c2: "pending_rows (probe_shuffle_state
        (snd (run_ProcessBatch example_join_state example_calls ! 2))) = 0
      \<and> total_remaining (output_buffer
        (snd (run_ProcessBatch example_join_state example_calls ! 2))) = 0"
    using inst [THEN conjunct2] len p nl2 by blast
  show ?thesis using len b p c1 c2 by blast
qed

subsection \<open>Group ids of the shuffle table across a shuffle\<close>

lemma after_batch_B_state:
  "after_batch_B = parallel_state\<lparr>
      shuffle_table_groupby_hashes := [1], shuffle_next_group := 1,
      shuffle_build_table := [(0, 0)], in_table := [], in_table_hashes := [],
      build_iter := 1\<rparr>"
  by (simp add: after_batch_B_def batch_B_def parallel_state_def two_rank_env_def groupby_defs
      single_row_update_table Let_def)

lemma after_batch_C_state:
  "shuffle_table_groupby_hashes after_batch_C = [1, 2]
   \<and> shuffle_next_group after_batch_C = 2
   \<and> shuffle_build_table after_batch_C = [(0, 0), (1, 1)]
   \<and> map fst (data_table (shuffle_table_buffer after_batch_C)) = [[Some ''C'']]
   \<and> n_keys after_batch_C = 1 \<and> parallel after_batch_C \<and> f_in_cols after_batch_C = [1]"
  unfolding after_batch_C_def after_batch_B_state
  by (simp add: batch_C_def parallel_state_def two_rank_env_def groupby_defs
      single_row_update_table Let_def)

text \<open>
  C7: the claim fails for the shuffle build table. Rank 0 of two processes receives a batch
  with key B, which belongs to rank 1: B is inserted into the shuffle table with group id
  0. The shuffle of that iteration resets the shuffle buffer
  (\<^verbatim>\<open>shuffle_table_buffer.Reset()\<close>, line 307) but leaves \<^verbatim>\<open>shuffle_build_table\<close>,
  \<^verbatim>\<open>shuffle_table_groupby_hashes\<close> and \<^verbatim>\<open>shuffle_next_group\<close> as they were. A batch with
  the new key C then gets group id 1 although the table holds one row, and a later batch
  with key B is not found and gets group id 2: the id of B has changed.
\<close>

theorem shuffle_group_id_changes_after_reset:
  "snd (batch_row_to_group two_rank_env parallel_state batch_B) = [0]
   \<and> data_table (shuffle_table_buffer after_batch_B) = []
   \<and> shuffle_next_group after_batch_B = 1
   \<and> shuffle_build_table after_batch_B = [(0, 0)]
   \<and> snd (batch_row_to_group two_rank_env after_batch_B batch_C) = [1]
   \<and> length (data_table (shuffle_table_buffer after_batch_C)) = 1
   \<and> snd (batch_row_to_group two_rank_env after_batch_C batch_B) = [2]"
proof -
  have a: "snd (batch_row_to_group two_rank_env parallel_state batch_B) = [0]"
    by (simp add: batch_row_to_group_def batch_B_def parallel_state_def two_rank_env_def
        groupby_defs single_row_update_table Let_def)
  have b: "data_table (shuffle_table_buffer after_batch_B) = []"
    "shuffle_next_group after_batch_B = 1" "shuffle_build_table after_batch_B = [(0, 0)]"
    by (simp_all add: after_batch_B_state parallel_state_def GroupbyState_init_def)
  have c: "snd (batch_row_to_group two_rank_env after_batch_B batch_C) = [1]"
    unfolding after_batch_B_state
    by (simp add: batch_row_to_group_def batch_C_def parallel_state_def two_rank_env_def
        groupby_defs single_row_update_table Let_def)
  have d: "length (data_table (shuffle_table_buffer after_batch_C)) = 1"
    using after_batch_C_state [THEN conjunct2, THEN conjunct2, THEN conjunct2, THEN conjunct1]
    by (metis length_map length_Cons list.size(3) One_nat_def)
  have e: "snd (batch_row_to_group two_rank_env after_batch_C batch_B) = [2]"
    unfolding after_batch_C_def after_batch_B_state
    by (simp add: batch_row_to_group_def batch_C_def batch_B_def parallel_state_def
        two_rank_env_def groupby_defs single_row_update_table Let_def)
  show ?thesis using a b c d e by simp
qed

end
